theory Spec2Isabelle
  imports Complex_Main "HOL-Library.Sublist" "HOL-Library.Multiset"
begin

section \<open>Python primitives used by \<^verbatim>\<open>securitylib/passwords.py\<close>\<close>

text \<open>
  Passwords are Python 2 byte strings: a \<^typ>\<open>string\<close> here, every \<^typ>\<open>char\<close> one byte.
  The exceptions the code could raise are values of \<open>error\<close>; a fallible function returns
  \<open>error + 'a\<close> with \<open>Inl\<close> for the exception.
\<close>

datatype error = ValueError | IndexError | RuntimeError

text \<open>
  Python's slice \<^verbatim>\<open>s[i:j]\<close> with integer bounds: a negative bound counts from the end,
  and both bounds are clipped to the string.
\<close>

definition slice_bound :: "nat \<Rightarrow> int \<Rightarrow> nat" where
  "slice_bound n i = (if i < 0 then nat (max (i + int n) 0) else min (nat i) n)"

definition py_slice :: "'a list \<Rightarrow> int \<Rightarrow> int \<Rightarrow> 'a list" where
  "py_slice s i j = take (slice_bound (length s) j - slice_bound (length s) i)
                         (drop (slice_bound (length s) i) s)"

text \<open>\<^verbatim>\<open>s[:j]\<close> and \<^verbatim>\<open>s[i:]\<close>.\<close>

definition py_slice_to :: "'a list \<Rightarrow> int \<Rightarrow> 'a list" where
  "py_slice_to s j = take (slice_bound (length s) j) s"

definition py_slice_from :: "'a list \<Rightarrow> int \<Rightarrow> 'a list" where
  "py_slice_from s i = drop (slice_bound (length s) i) s"

text \<open>
  Indexing \<^verbatim>\<open>xs[i]\<close> and the assignment \<^verbatim>\<open>xs[i] = v\<close>: an index from \<open>-len(xs)\<close> to
  \<open>len(xs) - 1\<close> is in range, a negative one counting from the end; any other raises
  \<^verbatim>\<open>IndexError\<close>.
\<close>

definition py_get :: "'a list \<Rightarrow> int \<Rightarrow> error + 'a" where
  "py_get xs i =
     (if 0 \<le> i \<and> i < int (length xs) then Inr (xs ! nat i)
      else if - int (length xs) \<le> i \<and> i < 0 then Inr (xs ! nat (i + int (length xs)))
      else Inl IndexError)"

definition py_set :: "'a list \<Rightarrow> int \<Rightarrow> 'a \<Rightarrow> error + 'a list" where
  "py_set xs i v =
     (if 0 \<le> i \<and> i < int (length xs) then Inr (xs[nat i := v])
      else if - int (length xs) \<le> i \<and> i < 0 then Inr (xs[nat (i + int (length xs)) := v])
      else Inl IndexError)"

lemma py_get_in_range: "i < length xs \<Longrightarrow> py_get xs (int i) = Inr (xs ! i)"
  by (simp add: py_get_def)

lemma py_set_in_range: "i < length xs \<Longrightarrow> py_set xs (int i) v = Inr (xs[i := v])"
  by (simp add: py_set_def)

section \<open>Longest common substring\<close>

text \<open>
  The inner loop \<^verbatim>\<open>for y, s2_char in enumerate2\<close> for one character \<open>s1_char\<close> of
  \<open>s1\<close> at (1-based) position \<open>x\<close>. The row \<open>m1\<close> is only read; the state that changes is
  the row \<open>m2\<close> and the pair \<open>longest\<close>, \<open>x_longest\<close>. Every read and write of a row is
  checked against its length.
\<close>

fun lcs_inner ::
  "nat \<Rightarrow> char \<Rightarrow> (nat \<times> char) list \<Rightarrow> nat list \<Rightarrow> nat list \<times> nat \<times> nat
     \<Rightarrow> error + nat list \<times> nat \<times> nat"
where
  "lcs_inner x s1_char [] m1 (m2, longest, x_longest) = Inr (m2, longest, x_longest)"
| "lcs_inner x s1_char ((y, s2_char) # rest) m1 (m2, longest, x_longest) =
     (if s1_char = s2_char then
        (case py_get m1 (int y - 1) of
           Inl e \<Rightarrow> Inl e
         | Inr diag \<Rightarrow>
        (case py_set m2 (int y) (diag + 1) of
           Inl e \<Rightarrow> Inl e
         | Inr m2' \<Rightarrow>
        (case py_get m2' (int y) of
           Inl e \<Rightarrow> Inl e
         | Inr cur \<Rightarrow>
             if cur > longest
             then lcs_inner x s1_char rest m1 (m2', cur, x)
             else lcs_inner x s1_char rest m1 (m2', longest, x_longest))))
      else (case py_set m2 (int y) 0 of
              Inl e \<Rightarrow> Inl e
            | Inr m2' \<Rightarrow> lcs_inner x s1_char rest m1 (m2', longest, x_longest)))"

text \<open>
  The outer loop \<^verbatim>\<open>for x, s1_char in enumerate1\<close>; after each row the two rows are
  swapped (\<^verbatim>\<open>m1, m2 = m2, m1\<close>).
\<close>

fun lcs_outer ::
  "(nat \<times> char) list \<Rightarrow> (nat \<times> char) list \<Rightarrow> nat list \<times> nat list \<times> nat \<times> nat
     \<Rightarrow> error + nat list \<times> nat list \<times> nat \<times> nat"
where
  "lcs_outer [] enumerate2 st = Inr st"
| "lcs_outer ((x, s1_char) # rest) enumerate2 (m1, m2, longest, x_longest) =
     (case lcs_inner x s1_char enumerate2 m1 (m2, longest, x_longest) of
        Inl e \<Rightarrow> Inl e
      | Inr (m2', longest', x_longest') \<Rightarrow>
          lcs_outer rest enumerate2 (m2', m1, longest', x_longest'))"

definition longest_common_substring :: "string \<Rightarrow> string \<Rightarrow> error + int \<times> string" where
  "longest_common_substring s1 s2 =
     (let l2 = 1 + length s2;
          m1 = replicate l2 0;
          m2 = replicate l2 0;
          enumerate1 = List.enumerate 1 s1;
          enumerate2 = List.enumerate 1 s2
      in case lcs_outer enumerate1 enumerate2 (m1, m2, 0, 0) of
           Inl e \<Rightarrow> Inl e
         | Inr (m1', m2', longest, x_longest) \<Rightarrow>
             (let start = int x_longest - int longest
              in Inr (start, py_slice s1 start (int x_longest))))"

subsection \<open>The computation without its range checks\<close>

text \<open>
  The same loops on plain lists, with \<open>xs ! i\<close> and \<open>xs[i := v]\<close>. The rows have
  \<open>1 + len(s2)\<close> entries and \<open>y\<close> runs from 1 to \<open>len(s2)\<close>, so no check of the model
  fails and it returns what these compute. The proofs below are about these values.
\<close>

fun lcs_inner_val ::
  "nat \<Rightarrow> char \<Rightarrow> (nat \<times> char) list \<Rightarrow> nat list \<Rightarrow> nat list \<times> nat \<times> nat \<Rightarrow> nat list \<times> nat \<times> nat"
where
  "lcs_inner_val x s1_char [] m1 (m2, longest, x_longest) = (m2, longest, x_longest)"
| "lcs_inner_val x s1_char ((y, s2_char) # rest) m1 (m2, longest, x_longest) =
     (if s1_char = s2_char then
        (let m2' = m2[y := m1 ! (y - 1) + 1] in
         if m2' ! y > longest
         then lcs_inner_val x s1_char rest m1 (m2', m2' ! y, x)
         else lcs_inner_val x s1_char rest m1 (m2', longest, x_longest))
      else lcs_inner_val x s1_char rest m1 (m2[y := 0], longest, x_longest))"

fun lcs_outer_val ::
  "(nat \<times> char) list \<Rightarrow> (nat \<times> char) list \<Rightarrow> nat list \<times> nat list \<times> nat \<times> nat
     \<Rightarrow> nat list \<times> nat list \<times> nat \<times> nat"
where
  "lcs_outer_val [] enumerate2 st = st"
| "lcs_outer_val ((x, s1_char) # rest) enumerate2 (m1, m2, longest, x_longest) =
     (case lcs_inner_val x s1_char enumerate2 m1 (m2, longest, x_longest) of
        (m2', longest', x_longest') \<Rightarrow>
          lcs_outer_val rest enumerate2 (m2', m1, longest', x_longest'))"

definition longest_common_substring_val :: "string \<Rightarrow> string \<Rightarrow> int \<times> string" where
  "longest_common_substring_val s1 s2 =
     (let l2 = 1 + length s2;
          m1 = replicate l2 0;
          m2 = replicate l2 0;
          enumerate1 = List.enumerate 1 s1;
          enumerate2 = List.enumerate 1 s2
      in case lcs_outer_val enumerate1 enumerate2 (m1, m2, 0, 0) of
           (m1', m2', longest, x_longest) \<Rightarrow>
             (let start = int x_longest - int longest
              in (start, py_slice s1 start (int x_longest))))"

lemma lcs_inner_val_length:
  "length (fst (lcs_inner_val x c ys m1 (m2, L, X))) = length m2"
  by (induction ys arbitrary: m2 L X) (auto simp: Let_def)

lemma lcs_inner_checked:
  "1 \<le> k \<Longrightarrow> k + length t \<le> length m2 \<Longrightarrow> length m1 = length m2 \<Longrightarrow>
   lcs_inner x c (List.enumerate k t) m1 (m2, L, X)
     = Inr (lcs_inner_val x c (List.enumerate k t) m1 (m2, L, X))"
proof (induction t arbitrary: k m2 L X)
  case Nil
  then show ?case by simp
next
  case (Cons d t)
  have k: "k < length m2" "k - 1 < length m1" using Cons.prems by simp_all
  have g1: "py_get m1 (int k - 1) = Inr (m1 ! (k - 1))"
    using py_get_in_range [OF k(2)] Cons.prems(1) by (simp add: of_nat_diff)
  have s1: "py_set m2 (int k) v = Inr (m2[k := v])" for v
    by (rule py_set_in_range [OF k(1)])
  have g2: "py_get (m2[k := v]) (int k) = Inr v" for v
    using py_get_in_range [of k "m2[k := v]"] k(1) by simp
  have IH: "lcs_inner x c (List.enumerate (Suc k) t) m1 (m2[k := v], L', X')
            = Inr (lcs_inner_val x c (List.enumerate (Suc k) t) m1 (m2[k := v], L', X'))"
    for v L' X'
    using Cons.prems by (intro Cons.IH) simp_all
  let ?v = "m1 ! (k - 1) + 1"
  have step: "lcs_inner x c (List.enumerate k (d # t)) m1 (m2, L, X) =
        (if c = d
         then (if ?v > L then lcs_inner x c (List.enumerate (Suc k) t) m1 (m2[k := ?v], ?v, x)
               else lcs_inner x c (List.enumerate (Suc k) t) m1 (m2[k := ?v], L, X))
         else lcs_inner x c (List.enumerate (Suc k) t) m1 (m2[k := 0], L, X))"
    by (simp add: g1 s1 g2)
  have val: "lcs_inner_val x c (List.enumerate k (d # t)) m1 (m2, L, X) =
        (if c = d
         then (if ?v > L then lcs_inner_val x c (List.enumerate (Suc k) t) m1 (m2[k := ?v], ?v, x)
               else lcs_inner_val x c (List.enumerate (Suc k) t) m1 (m2[k := ?v], L, X))
         else lcs_inner_val x c (List.enumerate (Suc k) t) m1 (m2[k := 0], L, X))"
    using k(1) by (simp add: Let_def)
  show ?case unfolding step val IH by simp
qed

lemma lcs_outer_checked:
  "length m1 = Suc (length s2) \<Longrightarrow> length m2 = Suc (length s2) \<Longrightarrow>
   lcs_outer e1 (List.enumerate 1 s2) (m1, m2, L, X)
     = Inr (lcs_outer_val e1 (List.enumerate 1 s2) (m1, m2, L, X))"
proof (induction e1 arbitrary: m1 m2 L X)
  case Nil
  then show ?case by simp
next
  case (Cons xc e1)
  obtain x c where xc: "xc = (x, c)" by (cases xc)
  obtain m2' L' X' where r: "lcs_inner_val x c (List.enumerate 1 s2) m1 (m2, L, X) = (m2', L', X')"
    by (metis prod_cases3)
  have i: "lcs_inner x c (List.enumerate 1 s2) m1 (m2, L, X) = Inr (m2', L', X')"
    using lcs_inner_checked [of 1 s2 m2 m1 x c L X] Cons.prems r by simp
  have len: "length m2' = Suc (length s2)"
    using lcs_inner_val_length [of x c "List.enumerate 1 s2" m1 m2 L X] r Cons.prems(2) by simp
  show ?case
    unfolding xc lcs_outer.simps lcs_outer_val.simps i r
    using Cons.IH [OF len Cons.prems(1), of L' X'] by (simp only: sum.case prod.case)
qed

lemma longest_common_substring_checked:
  "longest_common_substring s1 s2 = Inr (longest_common_substring_val s1 s2)"
proof -
  have "lcs_outer (List.enumerate 1 s1) (List.enumerate 1 s2)
          (replicate (1 + length s2) 0, replicate (1 + length s2) 0, 0, 0)
        = Inr (lcs_outer_val (List.enumerate 1 s1) (List.enumerate 1 s2)
          (replicate (1 + length s2) 0, replicate (1 + length s2) 0, 0, 0))"
    by (rule lcs_outer_checked) simp_all
  then show ?thesis
    by (simp add: longest_common_substring_def longest_common_substring_val_def Let_def
        split: prod.splits)
qed

subsection \<open>The table the two rows run over\<close>

text \<open>
  \<open>common_suffix s1 s2 x y\<close> is the length of the longest common suffix of the first \<open>x\<close>
  characters of \<open>s1\<close> and the first \<open>y\<close> characters of \<open>s2\<close>: the entry the full
  dynamic-programming matrix would hold at \<open>(x, y)\<close>. It is used in the proofs only.
\<close>

fun lcp :: "'a list \<Rightarrow> 'a list \<Rightarrow> nat" where
  "lcp (a # u) (b # v) = (if a = b then Suc (lcp u v) else 0)"
| "lcp u v = 0"

definition common_suffix :: "'a list \<Rightarrow> 'a list \<Rightarrow> nat \<Rightarrow> nat \<Rightarrow> nat" where
  "common_suffix s1 s2 x y = lcp (rev (take x s1)) (rev (take y s2))"

lemma lcp_le1: "lcp u v \<le> length u"
  by (induction u v rule: lcp.induct) auto

lemma lcp_le2: "lcp u v \<le> length v"
  by (induction u v rule: lcp.induct) auto

lemma lcp_take: "take (lcp u v) u = take (lcp u v) v"
  by (induction u v rule: lcp.induct) auto

lemma lcp_greatest: "take k u = take k v \<Longrightarrow> k \<le> length u \<Longrightarrow> k \<le> length v \<Longrightarrow> k \<le> lcp u v"
proof (induction u v arbitrary: k rule: lcp.induct)
  case (1 a u b v)
  then show ?case by (cases k) auto
qed auto

lemma common_suffix_0 [simp]: "common_suffix s1 s2 0 y = 0" "common_suffix s1 s2 x 0 = 0"
  by (simp_all add: common_suffix_def)

lemma common_suffix_Suc:
  "x < length s1 \<Longrightarrow> y < length s2 \<Longrightarrow>
   common_suffix s1 s2 (Suc x) (Suc y) = (if s1 ! x = s2 ! y then Suc (common_suffix s1 s2 x y) else 0)"
  by (simp add: common_suffix_def take_Suc_conv_app_nth)

lemma common_suffix_le: "common_suffix s1 s2 x y \<le> x"
  unfolding common_suffix_def using lcp_le1 [of "rev (take x s1)" "rev (take y s2)"] by simp

subsection \<open>The inner loop\<close>

definition cell :: "char \<Rightarrow> nat list \<Rightarrow> nat \<Rightarrow> char \<Rightarrow> nat" where
  "cell c m1 y d = (if c = d then m1 ! (y - 1) + 1 else 0)"

lemma lcs_inner_spec:
  "lcs_inner_val x c (List.enumerate k t) m1 (m2, L, X) = (m2', L', X') \<Longrightarrow>
   k + length t \<le> length m2 \<Longrightarrow>
   length m2' = length m2 \<and>
   (\<forall>j < length t. m2' ! (k + j) = cell c m1 (k + j) (t ! j)) \<and>
   (\<forall>i < k. m2' ! i = m2 ! i) \<and>
   L \<le> L' \<and>
   (\<forall>j < length t. cell c m1 (k + j) (t ! j) \<le> L') \<and>
   ((L' = L \<and> X' = X) \<or> (L < L' \<and> X' = x \<and> (\<exists>j < length t. cell c m1 (k + j) (t ! j) = L')))"
proof (induction t arbitrary: k m2 L X)
  case Nil
  then show ?case by simp
next
  case (Cons d t)
  let ?v = "cell c m1 k d"
  let ?m2 = "m2[k := ?v]"
  let ?L = "if L < ?v then ?v else L"
  let ?X = "if L < ?v then x else X"
  have klt: "k < length m2" using Cons.prems(2) by simp
  have step: "lcs_inner_val x c (List.enumerate k (d # t)) m1 (m2, L, X) =
              lcs_inner_val x c (List.enumerate (Suc k) t) m1 (?m2, ?L, ?X)"
    using klt by (simp add: cell_def Let_def)
  have run: "lcs_inner_val x c (List.enumerate (Suc k) t) m1 (?m2, ?L, ?X) = (m2', L', X')"
    using Cons.prems(1) step by simp
  have len: "Suc k + length t \<le> length ?m2" using Cons.prems(2) by simp
  note IH = Cons.IH [OF run len]
  have a: "length m2' = length m2" using IH by simp
  have b: "\<forall>j < length (d # t). m2' ! (k + j) = cell c m1 (k + j) ((d # t) ! j)"
  proof (intro allI impI)
    fix j assume j: "j < length (d # t)"
    show "m2' ! (k + j) = cell c m1 (k + j) ((d # t) ! j)"
    proof (cases j)
      case 0
      have "m2' ! k = ?m2 ! k" using IH by simp
      then show ?thesis using 0 klt by simp
    next
      case (Suc j')
      then have "j' < length t" using j by simp
      then have "m2' ! (Suc k + j') = cell c m1 (Suc k + j') (t ! j')" using IH by blast
      then show ?thesis using Suc by simp
    qed
  qed
  have c: "\<forall>i < k. m2' ! i = m2 ! i"
  proof (intro allI impI)
    fix i assume "i < k"
    then have "m2' ! i = ?m2 ! i" using IH by simp
    then show "m2' ! i = m2 ! i" using \<open>i < k\<close> by simp
  qed
  have d: "L \<le> L'" using IH by (auto split: if_splits)
  have e: "\<forall>j < length (d # t). cell c m1 (k + j) ((d # t) ! j) \<le> L'"
  proof (intro allI impI)
    fix j assume j: "j < length (d # t)"
    show "cell c m1 (k + j) ((d # t) ! j) \<le> L'"
    proof (cases j)
      case 0
      have "?L \<le> L'" using IH by blast
      then show ?thesis using 0 by (auto split: if_splits)
    next
      case (Suc j')
      then have "j' < length t" using j by simp
      then have "cell c m1 (Suc k + j') (t ! j') \<le> L'" using IH by blast
      then show ?thesis using Suc by simp
    qed
  qed
  have f: "(L' = L \<and> X' = X) \<or> (L < L' \<and> X' = x \<and> (\<exists>j < length (d # t). cell c m1 (k + j) ((d # t) ! j) = L'))"
  proof -
    from IH have "(L' = ?L \<and> X' = ?X) \<or> (?L < L' \<and> X' = x \<and> (\<exists>j < length t. cell c m1 (Suc k + j) (t ! j) = L'))"
      by blast
    then show ?thesis
    proof
      assume h: "L' = ?L \<and> X' = ?X"
      show ?thesis
      proof (cases "L < ?v")
        case True
        then have "L < L' \<and> X' = x \<and> cell c m1 (k + 0) ((d # t) ! 0) = L'" using h by simp
        then show ?thesis by (metis length_Cons zero_less_Suc)
      next
        case False
        then show ?thesis using h by simp
      qed
    next
      assume h: "?L < L' \<and> X' = x \<and> (\<exists>j < length t. cell c m1 (Suc k + j) (t ! j) = L')"
      then obtain j where j: "j < length t" "cell c m1 (Suc k + j) (t ! j) = L'" by blast
      then have "Suc j < length (d # t) \<and> cell c m1 (k + Suc j) ((d # t) ! Suc j) = L'" by simp
      moreover have "L < L'" using h by (auto split: if_splits)
      ultimately show ?thesis using h by blast
    qed
  qed
  show ?case using a b c d e f by blast
qed


subsection \<open>The invariant of the outer loop\<close>

text \<open>
  After \<open>x\<close> rows: both rows have \<open>1 + len(s2)\<close> entries (so every index \<open>y\<close> and
  \<open>y - 1\<close> of the inner loop is in range), \<open>m1\<close> is row \<open>x\<close> of the table, \<open>longest\<close>
  bounds every entry of the rows seen, is attained in row \<open>x_longest\<close>, and no earlier row
  attains it.
\<close>

definition lcs_inv :: "string \<Rightarrow> string \<Rightarrow> nat \<Rightarrow> nat list \<times> nat list \<times> nat \<times> nat \<Rightarrow> bool" where
  "lcs_inv s1 s2 x st = (case st of (m1, m2, L, X) \<Rightarrow>
     length m1 = Suc (length s2) \<and> length m2 = Suc (length s2) \<and> m2 ! 0 = 0 \<and>
     (\<forall>y \<le> length s2. m1 ! y = common_suffix s1 s2 x y) \<and>
     (\<forall>i \<le> x. \<forall>y \<le> length s2. common_suffix s1 s2 i y \<le> L) \<and>
     ((L = 0 \<and> X = 0) \<or> (0 < L \<and> X \<le> x \<and> (\<exists>y \<le> length s2. common_suffix s1 s2 X y = L))) \<and>
     (\<forall>i < X. \<forall>y \<le> length s2. common_suffix s1 s2 i y < L))"

lemma lcs_inv_init: "lcs_inv s1 s2 0 (replicate (1 + length s2) 0, replicate (1 + length s2) 0, 0, 0)"
proof -
  have "replicate (Suc (length s2)) (0::nat) ! y = 0" if "y \<le> length s2" for y
    using that by (intro nth_replicate) simp
  then show ?thesis by (simp add: lcs_inv_def del: replicate_Suc)
qed

lemma lcs_inv_step:
  assumes inv: "lcs_inv s1 s2 x (m1, m2, L, X)"
    and x: "x < length s1"
    and run: "lcs_inner_val (Suc x) (s1 ! x) (List.enumerate 1 s2) m1 (m2, L, X) = (m2', L', X')"
  shows "lcs_inv s1 s2 (Suc x) (m2', m1, L', X')"
proof -
  let ?n = "length s2"
  let ?cs = "common_suffix s1 s2"
  from inv have len1: "length m1 = Suc ?n" and len2: "length m2 = Suc ?n" and z: "m2 ! 0 = 0"
    and row: "\<forall>y \<le> ?n. m1 ! y = ?cs x y"
    and ub: "\<forall>i \<le> x. \<forall>y \<le> ?n. ?cs i y \<le> L"
    and wit: "(L = 0 \<and> X = 0) \<or> (0 < L \<and> X \<le> x \<and> (\<exists>y \<le> ?n. ?cs X y = L))"
    and first: "\<forall>i < X. \<forall>y \<le> ?n. ?cs i y < L"
    by (simp_all add: lcs_inv_def)
  have "1 + ?n \<le> length m2" using len2 by simp
  note S = lcs_inner_spec [OF run this]
  have cellv: "cell (s1 ! x) m1 (1 + j) (s2 ! j) = ?cs (Suc x) (Suc j)" if "j < ?n" for j
    using that row x by (simp add: cell_def common_suffix_Suc)
  have newrow: "\<forall>y \<le> ?n. m2' ! y = ?cs (Suc x) y"
  proof (intro allI impI)
    fix y assume y: "y \<le> ?n"
    show "m2' ! y = ?cs (Suc x) y"
    proof (cases y)
      case 0
      have "m2' ! 0 = m2 ! 0" using S by simp
      then show ?thesis using 0 z by simp
    next
      case (Suc j)
      then have j: "j < ?n" using y by simp
      then have "m2' ! (1 + j) = cell (s1 ! x) m1 (1 + j) (s2 ! j)" using S by blast
      then show ?thesis using Suc cellv [OF j] by simp
    qed
  qed
  have LL: "L \<le> L'" using S by blast
  have rowub: "\<forall>y \<le> ?n. ?cs (Suc x) y \<le> L'"
  proof (intro allI impI)
    fix y assume y: "y \<le> ?n"
    show "?cs (Suc x) y \<le> L'"
    proof (cases y)
      case 0
      then show ?thesis by simp
    next
      case (Suc j)
      then have j: "j < ?n" using y by simp
      then have "cell (s1 ! x) m1 (1 + j) (s2 ! j) \<le> L'" using S by blast
      then show ?thesis using Suc cellv [OF j] by simp
    qed
  qed
  have ub': "\<forall>i \<le> Suc x. \<forall>y \<le> ?n. ?cs i y \<le> L'"
  proof (intro allI impI)
    fix i y assume i: "i \<le> Suc x" and y: "y \<le> ?n"
    show "?cs i y \<le> L'"
    proof (cases "i = Suc x")
      case True
      then show ?thesis using rowub y by simp
    next
      case False
      then have "i \<le> x" using i by simp
      then have "?cs i y \<le> L" using ub y by blast
      then show ?thesis using LL by simp
    qed
  qed
  from S have alt: "(L' = L \<and> X' = X) \<or>
      (L < L' \<and> X' = Suc x \<and> (\<exists>j < ?n. cell (s1 ! x) m1 (1 + j) (s2 ! j) = L'))"
    by blast
  have wit': "(L' = 0 \<and> X' = 0) \<or> (0 < L' \<and> X' \<le> Suc x \<and> (\<exists>y \<le> ?n. ?cs X' y = L'))"
    using alt
  proof
    assume "L' = L \<and> X' = X"
    then show ?thesis using wit by auto
  next
    assume h: "L < L' \<and> X' = Suc x \<and> (\<exists>j < ?n. cell (s1 ! x) m1 (1 + j) (s2 ! j) = L')"
    then obtain j where j: "j < ?n" "cell (s1 ! x) m1 (1 + j) (s2 ! j) = L'" by blast
    then have "Suc j \<le> ?n \<and> ?cs (Suc x) (Suc j) = L'" using cellv [OF j(1)] by simp
    then show ?thesis using h by auto
  qed
  have first': "\<forall>i < X'. \<forall>y \<le> ?n. ?cs i y < L'"
    using alt
  proof
    assume "L' = L \<and> X' = X"
    then show ?thesis using first by simp
  next
    assume h: "L < L' \<and> X' = Suc x \<and> (\<exists>j < ?n. cell (s1 ! x) m1 (1 + j) (s2 ! j) = L')"
    show ?thesis
    proof (intro allI impI)
      fix i y assume "i < X'" and y: "y \<le> ?n"
      then have "i \<le> x" using h by simp
      then have "?cs i y \<le> L" using ub y by blast
      then show "?cs i y < L'" using h by simp
    qed
  qed
  have len2': "length m2' = Suc ?n" using S len2 by simp
  have z1: "m1 ! 0 = 0" using row by simp
  show ?thesis
    unfolding lcs_inv_def using len1 len2' z1 newrow ub' wit' first' by simp
qed

lemma lcs_outer_inv:
  "lcs_inv s1 s2 x st \<Longrightarrow> t = drop x s1 \<Longrightarrow> x \<le> length s1 \<Longrightarrow>
   lcs_inv s1 s2 (length s1) (lcs_outer_val (List.enumerate (Suc x) t) (List.enumerate 1 s2) st)"
proof (induction t arbitrary: x st)
  case Nil
  then have "x = length s1" by simp
  then show ?case using Nil by simp
next
  case (Cons c t)
  obtain m1 m2 L X where st: "st = (m1, m2, L, X)" by (cases st) auto
  have xlt: "x < length s1" using Cons.prems(2,3) by (metis drop_all leI list.distinct(1))
  have c: "c = s1 ! x" and t: "t = drop (Suc x) s1"
    using Cons.prems(2) xlt by (metis Cons_nth_drop_Suc list.inject)+
  obtain m2' L' X' where run: "lcs_inner_val (Suc x) (s1 ! x) (List.enumerate 1 s2) m1 (m2, L, X) = (m2', L', X')"
    by (metis prod_cases3)
  have inv': "lcs_inv s1 s2 (Suc x) (m2', m1, L', X')"
    using lcs_inv_step [OF _ xlt run] Cons.prems(1) st by simp
  have "lcs_outer_val (List.enumerate (Suc x) (c # t)) (List.enumerate 1 s2) st =
        lcs_outer_val (List.enumerate (Suc (Suc x)) t) (List.enumerate 1 s2) (m2', m1, L', X')"
    using run st c by simp
  then show ?case using Cons.IH [OF inv' t] xlt by simp
qed

lemma lcs_outer_final:
  "lcs_inv s1 s2 (length s1)
     (lcs_outer_val (List.enumerate 1 s1) (List.enumerate 1 s2)
        (replicate (1 + length s2) 0, replicate (1 + length s2) 0, 0, 0))"
  using lcs_outer_inv [OF lcs_inv_init, of s1 s1 s2] by simp


lemma common_suffix_window:
  assumes "x \<le> length s1" "y \<le> length s2" "k \<le> common_suffix s1 s2 x y"
  shows "take k (drop (x - k) s1) = take k (drop (y - k) s2)"
proof -
  let ?u = "rev (take x s1)" and ?v = "rev (take y s2)"
  let ?c = "common_suffix s1 s2 x y"
  have kx: "k \<le> x" using assms(3) common_suffix_le [of s1 s2 x y] by simp
  have ky: "k \<le> y" using assms(3) lcp_le2 [of ?u ?v] assms(2) by (simp add: common_suffix_def)
  have "take ?c ?u = take ?c ?v" unfolding common_suffix_def by (rule lcp_take)
  then have "take k (take ?c ?u) = take k (take ?c ?v)" by simp
  then have "take k ?u = take k ?v" using assms(3) by (simp add: min_absorb2)
  then have "rev (take k ?u) = rev (take k ?v)" by simp
  then have "drop (x - k) (take x s1) = drop (y - k) (take y s2)"
    using assms(1,2) by (simp add: take_rev)
  moreover have "drop (x - k) (take x s1) = take k (drop (x - k) s1)"
    using kx by (simp add: drop_take)
  moreover have "drop (y - k) (take y s2) = take k (drop (y - k) s2)"
    using ky by (simp add: drop_take)
  ultimately show ?thesis by simp
qed

lemma sublist_common_suffix:
  assumes "s1 = p @ w @ q" "s2 = p' @ w @ q'"
  shows "length w \<le> common_suffix s1 s2 (length p + length w) (length p' + length w)"
proof -
  have "take (length p + length w) s1 = p @ w" using assms(1) by simp
  moreover have "take (length p' + length w) s2 = p' @ w" using assms(2) by simp
  ultimately show ?thesis
    unfolding common_suffix_def by (intro lcp_greatest) simp_all
qed

lemma lcs_result:
  obtains L X where
    "longest_common_substring_val s1 s2 = (int X - int L, take L (drop (X - L) s1))"
    "L \<le> X" "X \<le> length s1"
    "\<forall>i \<le> length s1. \<forall>y \<le> length s2. common_suffix s1 s2 i y \<le> L"
    "(L = 0 \<and> X = 0) \<or> (0 < L \<and> (\<exists>y \<le> length s2. common_suffix s1 s2 X y = L))"
    "\<forall>i < X. \<forall>y \<le> length s2. common_suffix s1 s2 i y < L"
proof -
  obtain m1 m2 L X where fin:
    "lcs_outer_val (List.enumerate 1 s1) (List.enumerate 1 s2)
       (replicate (1 + length s2) 0, replicate (1 + length s2) 0, 0, 0) = (m1, m2, L, X)"
    by (metis prod_cases4)
  have inv: "lcs_inv s1 s2 (length s1) (m1, m2, L, X)"
    using lcs_outer_final [of s1 s2] fin by simp
  then have ub: "\<forall>i \<le> length s1. \<forall>y \<le> length s2. common_suffix s1 s2 i y \<le> L"
    and wit: "(L = 0 \<and> X = 0) \<or> (0 < L \<and> X \<le> length s1 \<and> (\<exists>y \<le> length s2. common_suffix s1 s2 X y = L))"
    and first: "\<forall>i < X. \<forall>y \<le> length s2. common_suffix s1 s2 i y < L"
    by (simp_all add: lcs_inv_def)
  have LX: "L \<le> X" using wit common_suffix_le [of s1 s2 X] by auto
  have Xn: "X \<le> length s1" using wit by auto
  have "py_slice s1 (int X - int L) (int X) = take L (drop (X - L) s1)"
    using LX Xn by (simp add: py_slice_def slice_bound_def nat_diff_distrib' min_absorb1)
  then have "longest_common_substring_val s1 s2 = (int X - int L, take L (drop (X - L) s1))"
    using fin by (simp add: longest_common_substring_val_def)
  then show ?thesis using that LX Xn ub wit first by blast
qed


lemma lcs_bounds:
  assumes "longest_common_substring_val s k = (start, lcs)"
  shows "0 \<le> start" "nat start + length lcs \<le> length s" "lcs = take (length lcs) (drop (nat start) s)"
proof -
  obtain L X where r: "longest_common_substring_val s k = (int X - int L, take L (drop (X - L) s))"
    and LX: "L \<le> X" and Xn: "X \<le> length s"
    by (rule lcs_result [of s k]) blast
  have st: "start = int X - int L" and l: "lcs = take L (drop (X - L) s)" using r assms by simp_all
  have len: "length lcs = L" using l LX Xn by simp
  show "0 \<le> start" using st LX by simp
  have ns: "nat start = X - L" using st LX by (simp add: nat_diff_distrib')
  show "nat start + length lcs \<le> length s" using ns len LX Xn by simp
  show "lcs = take (length lcs) (drop (nat start) s)" using l len ns by simp
qed


subsection \<open>What \<open>longest_common_substring_val\<close> returns\<close>

lemma lcs_sublist_right: "sublist (snd (longest_common_substring_val a b)) b"
proof -
  obtain L X where r: "longest_common_substring_val a b = (int X - int L, take L (drop (X - L) a))"
    and Xn: "X \<le> length a"
    and wit: "(L = 0 \<and> X = 0) \<or> (0 < L \<and> (\<exists>y \<le> length b. common_suffix a b X y = L))"
    by (rule lcs_result [of a b]) blast
  have "sublist (take L (drop (X - L) a)) b"
  proof (cases "L = 0")
    case True
    then show ?thesis by simp
  next
    case False
    then obtain y where y: "y \<le> length b" "common_suffix a b X y = L" using wit by auto
    have "take L (drop (X - L) a) = take L (drop (y - L) b)"
      using common_suffix_window [OF Xn y(1), of L] y(2) by simp
    moreover have "sublist (take L (drop (y - L) b)) (drop (y - L) b)" by (rule sublist_take)
    moreover have "sublist (drop (y - L) b) b" by (rule sublist_drop)
    ultimately show ?thesis using sublist_order.order_trans by metis
  qed
  then show ?thesis using r by simp
qed

lemma common_window_le:
  assumes "a = p @ w @ q" "b = p' @ w @ q'"
  shows "length w \<le> common_suffix a b (length p + length w) (length p' + length w) \<and>
         length p + length w \<le> length a \<and> length p' + length w \<le> length b"
  using sublist_common_suffix [OF assms] assms by simp

lemma lcs_maximal:
  assumes "sublist w a" "sublist w b"
  shows "length w \<le> length (snd (longest_common_substring_val a b))"
proof -
  obtain L X where r: "longest_common_substring_val a b = (int X - int L, take L (drop (X - L) a))"
    and LX: "L \<le> X" and Xn: "X \<le> length a"
    and ub: "\<forall>i \<le> length a. \<forall>y \<le> length b. common_suffix a b i y \<le> L"
    by (rule lcs_result [of a b]) blast
  obtain p q p' q' where d: "a = p @ w @ q" "b = p' @ w @ q'"
    using assms unfolding sublist_def by blast
  from common_window_le [OF d] ub have "length w \<le> L" by (meson order_trans)
  moreover have "length (take L (drop (X - L) a)) = L" using LX Xn by simp
  ultimately show ?thesis using r by simp
qed

lemma lcs_leftmost:
  assumes "longest_common_substring_val a b = (start, lcs)" "i < nat start"
  shows "\<not> sublist (take (length lcs) (drop i a)) b"
proof
  assume sl: "sublist (take (length lcs) (drop i a)) b"
  obtain L X where r: "longest_common_substring_val a b = (int X - int L, take L (drop (X - L) a))"
    and LX: "L \<le> X" and Xn: "X \<le> length a"
    and first: "\<forall>i < X. \<forall>y \<le> length b. common_suffix a b i y < L"
    by (rule lcs_result [of a b]) blast
  have len: "length lcs = L" using r assms(1) LX Xn by auto
  have i: "i < X - L" using r assms LX by (simp add: nat_diff_distrib')
  let ?w = "take L (drop i a)"
  have lw: "length ?w = L" using i Xn by simp
  have da: "a = take i a @ ?w @ drop L (drop i a)"
    by (metis append_take_drop_id)
  obtain p' q' where db: "b = p' @ ?w @ q'" using sl len unfolding sublist_def by blast
  have li: "length (take i a) = i" using i Xn by simp
  from common_window_le [OF da db] lw li
  have "L \<le> common_suffix a b (i + L) (length p' + L)" and "length p' + L \<le> length b"
    by simp_all
  moreover have "i + L < X" using i by simp
  ultimately show False using first by (metis not_less)
qed

lemma lcs_empty: "a = [] \<or> b = [] \<Longrightarrow> longest_common_substring_val a b = (0, [])"
proof -
  assume e: "a = [] \<or> b = []"
  obtain L X where r: "longest_common_substring_val a b = (int X - int L, take L (drop (X - L) a))"
    and LX: "L \<le> X" and Xn: "X \<le> length a"
    and wit: "(L = 0 \<and> X = 0) \<or> (0 < L \<and> (\<exists>y \<le> length b. common_suffix a b X y = L))"
    by (rule lcs_result [of a b]) blast
  from e have "L = 0 \<and> X = 0"
  proof
    assume "a = []"
    then show ?thesis using Xn LX by simp
  next
    assume "b = []"
    then show ?thesis using wit by auto
  qed
  then show ?thesis using r by simp
qed

text \<open>
  Claim C4. \<open>longest_common_substring a b\<close> returns a start offset in \<open>a\<close> and the substring
  of \<open>a\<close> at that offset; the substring also occurs in \<open>b\<close>; no common contiguous substring
  of \<open>a\<close> and \<open>b\<close> is longer; among the common substrings of that maximal length it is the
  one at the least offset in \<open>a\<close> (the first one the row-by-row scan meets); an empty input
  gives the empty string at offset 0; and \<open>abcdef\<close>, \<open>xxbcdyy\<close> give offset 1 and \<open>bcd\<close>.
\<close>

theorem longest_common_substring_correct:
  "(\<exists>start sub.
      longest_common_substring a b = Inr (start, sub) \<and>
      0 \<le> start \<and> nat start + length sub \<le> length a \<and>
      sub = take (length sub) (drop (nat start) a) \<and>
      sublist sub b \<and>
      (\<forall>w. sublist w a \<and> sublist w b \<longrightarrow> length w \<le> length sub) \<and>
      (\<forall>i < nat start. \<not> sublist (take (length sub) (drop i a)) b) \<and>
      (a = [] \<or> b = [] \<longrightarrow> start = 0 \<and> sub = [])) \<and>
   longest_common_substring ''abcdef'' ''xxbcdyy'' = Inr (1, ''bcd'')"
proof -
  obtain start lcs where r: "longest_common_substring_val a b = (start, lcs)"
    by (cases "longest_common_substring_val a b")
  have c0: "longest_common_substring a b = Inr (start, lcs)"
    using r by (simp add: longest_common_substring_checked)
  note b = lcs_bounds [OF r]
  have c4: "sublist lcs b" using lcs_sublist_right [of a b] r by simp
  have c5: "\<forall>w. sublist w a \<and> sublist w b \<longrightarrow> length w \<le> length lcs"
    using lcs_maximal [of _ a b] r by simp
  have c6: "\<forall>i < nat start. \<not> sublist (take (length lcs) (drop i a)) b"
    using lcs_leftmost [OF r] by blast
  have c7: "a = [] \<or> b = [] \<longrightarrow> start = 0 \<and> lcs = []"
    using lcs_empty [of a b] r by auto
  have "longest_common_substring_val ''abcdef'' ''xxbcdyy'' = (1, ''bcd'')"
    by (simp add: longest_common_substring_val_def enumerate_eq_zip py_slice_def slice_bound_def
        Let_def)
  then have c8: "longest_common_substring ''abcdef'' ''xxbcdyy'' = Inr (1, ''bcd'')"
    by (simp add: longest_common_substring_checked)
  show ?thesis
    using c0 b c4 c5 c6 c7 c8 by blast
qed

theorem longest_common_substring_correct_witness:
  "sublist ''bcd'' ''abcdef'' \<and> sublist ''bcd'' ''xxbcdyy'' \<and>
   (\<exists>start sub. longest_common_substring ''abcdef'' ''xxbcdyy'' = Inr (start, sub) \<and>
                 length ''bcd'' \<le> length sub)"
proof -
  have h: "sublist ''bcd'' ''abcdef'' \<and> sublist ''bcd'' ''xxbcdyy''"
    by (simp add: sublist_Cons_right)
  have "\<exists>start sub. longest_common_substring ''abcdef'' ''xxbcdyy'' = Inr (start, sub) \<and>
          (\<forall>w. sublist w ''abcdef'' \<and> sublist w ''xxbcdyy'' \<longrightarrow> length w \<le> length sub)"
    using longest_common_substring_correct [of "''abcdef''" "''xxbcdyy''"] by blast
  then show ?thesis using h by blast
qed

section \<open>Keyboard sequences\<close>

definition KEYBOARD_SEQUENCES :: "string list" where
  "KEYBOARD_SEQUENCES =
     [''1234567890qwertyuiopasdfghjklzxcvbnm'',
      ''1qaz2wsx3edc4rfv5tgb6yhn7ujm8ik9ol0p'',
      ''qazwsxedcrfvtgbyhnujmikolp'',
      ''0147258369'',
      ''1470258369'',
      ''7894561230'',
      ''abcdefgh'',
      ''13579'',
      ''02468'',
      ''a1b2c3d4e5f6g7h8i9j0'']"

text \<open>
  \<^verbatim>\<open>remove_sequence\<close>: when the longest common substring of the string and the keyboard
  sequence has more than 2 characters, it is replaced by two null bytes and the function
  recurses on what stands before and after it. The recursion terminates because both
  remainders are shorter than the string. Here the interpreter's stack has no bound; the
  bound that CPython puts on the depth of recursion is the subject of the section on the
  recursion limit below.
\<close>

function remove_sequence :: "string \<Rightarrow> string \<Rightarrow> error + string" where
  "remove_sequence str keyboard_seq =
     (case longest_common_substring str keyboard_seq of
        Inl e \<Rightarrow> Inl e
      | Inr (start, lcs) \<Rightarrow>
          if length lcs > 2 then
            (case remove_sequence (py_slice_to str start) keyboard_seq of
               Inl e \<Rightarrow> Inl e
             | Inr left \<Rightarrow>
                 (case remove_sequence (py_slice_from str (start + int (length lcs))) keyboard_seq of
                    Inl e \<Rightarrow> Inl e
                  | Inr right \<Rightarrow> Inr (left @ [CHR 0x00, CHR 0x00] @ right)))
          else Inr str)"
  by pat_completeness auto
termination
  apply (relation "measure (\<lambda>(str, keyboard_seq). length str)")
  apply simp
  subgoal for str keyboard_seq x start lcs
    using lcs_bounds [of str keyboard_seq start lcs]
    by (simp add: longest_common_substring_checked py_slice_to_def slice_bound_def)
  subgoal for str keyboard_seq x start lcs
    using lcs_bounds [of str keyboard_seq start lcs]
    by (simp add: longest_common_substring_checked py_slice_from_def slice_bound_def)
  done

declare remove_sequence.simps [simp del]

text \<open>The value it computes, and that it is returned.\<close>

function remove_sequence_val :: "string \<Rightarrow> string \<Rightarrow> string" where
  "remove_sequence_val str keyboard_seq =
     (case longest_common_substring_val str keyboard_seq of
        (start, lcs) \<Rightarrow>
          if length lcs > 2
          then remove_sequence_val (py_slice_to str start) keyboard_seq @ [CHR 0x00, CHR 0x00]
               @ remove_sequence_val (py_slice_from str (start + int (length lcs))) keyboard_seq
          else str)"
  by pat_completeness auto
termination
  apply (relation "measure (\<lambda>(str, keyboard_seq). length str)")
  apply simp
  subgoal for str keyboard_seq start lcs
    using lcs_bounds [of str keyboard_seq start lcs] by (simp add: py_slice_to_def slice_bound_def)
  subgoal for str keyboard_seq start lcs
    using lcs_bounds [of str keyboard_seq start lcs] by (simp add: py_slice_from_def slice_bound_def)
  done

declare remove_sequence_val.simps [simp del]

lemma remove_sequence_checked: "remove_sequence s k = Inr (remove_sequence_val s k)"
proof (induction s k rule: remove_sequence_val.induct)
  case (1 str keyboard_seq)
  obtain start lcs where r: "longest_common_substring_val str keyboard_seq = (start, lcs)"
    by (cases "longest_common_substring_val str keyboard_seq")
  show ?case
  proof (cases "2 < length lcs")
    case False
    then show ?thesis
      using r
      by (subst remove_sequence.simps, subst remove_sequence_val.simps)
         (simp add: longest_common_substring_checked)
  next
    case True
    note IH1 = "1.IH"(1) [OF r [symmetric] True]
    note IH2 = "1.IH"(2) [OF r [symmetric] True]
    show ?thesis
      using r True
      by (subst remove_sequence.simps, subst remove_sequence_val.simps)
         (simp add: longest_common_substring_checked IH1 IH2)
  qed
qed



lemma keyboard_sequences_no_sentinel: "k \<in> set KEYBOARD_SEQUENCES \<Longrightarrow> CHR 0x00 \<notin> set k"
  by (auto simp: KEYBOARD_SEQUENCES_def)

lemma remove_sequence_no_match:
  "length (snd (longest_common_substring_val s k)) \<le> 2 \<Longrightarrow> remove_sequence_val s k = s"
  by (subst remove_sequence_val.simps) (auto split: prod.splits)

lemma remove_sequence_match:
  assumes "longest_common_substring_val s k = (start, lcs)" "2 < length lcs"
  shows "remove_sequence_val s k =
         remove_sequence_val (take (nat start) s) k @ [CHR 0x00, CHR 0x00]
         @ remove_sequence_val (drop (nat start + length lcs) s) k"
proof -
  note b = lcs_bounds [OF assms(1)]
  have "py_slice_to s start = take (nat start) s"
    using b by (simp add: py_slice_to_def slice_bound_def)
  moreover have "py_slice_from s (start + int (length lcs)) = drop (nat start + length lcs) s"
    using b by (simp add: py_slice_from_def slice_bound_def nat_add_distrib)
  ultimately show ?thesis using assms by (subst remove_sequence_val.simps) simp
qed

lemma remove_sequence_length_le: "length (remove_sequence_val s k) \<le> length s"
proof (induction s k rule: remove_sequence_val.induct)
  case (1 str keyboard_seq)
  obtain start lcs where r: "longest_common_substring_val str keyboard_seq = (start, lcs)"
    by (cases "longest_common_substring_val str keyboard_seq")
  show ?case
  proof (cases "2 < length lcs")
    case False
    then show ?thesis using r by (subst remove_sequence_val.simps) simp
  next
    case True
    note b = lcs_bounds [OF r]
    have l: "length (remove_sequence_val (py_slice_to str start) keyboard_seq) \<le> nat start"
      using "1.IH"(1) [OF r [symmetric] True] b by (simp add: py_slice_to_def slice_bound_def)
    have rr: "length (remove_sequence_val (py_slice_from str (start + int (length lcs))) keyboard_seq)
              \<le> length str - (nat start + length lcs)"
      using "1.IH"(2) [OF r [symmetric] True] b
      by (simp add: py_slice_from_def slice_bound_def nat_add_distrib)
    have "remove_sequence_val str keyboard_seq =
          remove_sequence_val (py_slice_to str start) keyboard_seq @ [CHR 0x00, CHR 0x00]
          @ remove_sequence_val (py_slice_from str (start + int (length lcs))) keyboard_seq"
      using r True by (subst remove_sequence_val.simps) simp
    then show ?thesis using l rr b True by simp
  qed
qed

lemma remove_sequence_shrinks:
  assumes "2 < length (snd (longest_common_substring_val s k))"
  shows "length (remove_sequence_val s k) + length (snd (longest_common_substring_val s k)) \<le> length s + 2"
proof -
  obtain start lcs where r: "longest_common_substring_val s k = (start, lcs)"
    by (cases "longest_common_substring_val s k")
  then have T: "2 < length lcs" using assms by simp
  note b = lcs_bounds [OF r]
  have "length (remove_sequence_val (take (nat start) s) k) \<le> nat start"
    using remove_sequence_length_le [of "take (nat start) s" k] b by simp
  moreover have "length (remove_sequence_val (drop (nat start + length lcs) s) k)
                 \<le> length s - (nat start + length lcs)"
    using remove_sequence_length_le [of "drop (nat start + length lcs) s" k] by simp
  ultimately show ?thesis using remove_sequence_match [OF r T] b T r by simp
qed

lemma remove_sequence_abcd: "remove_sequence_val ''abcd'' ''abcdefgh'' = [CHR 0x00, CHR 0x00]"
  by (simp add: remove_sequence_val.simps longest_common_substring_val_def enumerate_eq_zip py_slice_def
      slice_bound_def Let_def py_slice_to_def py_slice_from_def)

lemma lcs_abcd: "longest_common_substring_val ''abcd'' ''abcdefgh'' = (0, ''abcd'')"
  by (simp add: longest_common_substring_val_def enumerate_eq_zip py_slice_def slice_bound_def Let_def)

text \<open>
  Claim C6, as stated: the output of \<open>remove_sequence\<close> has the length of its input. It
  fails: the matched span \<open>abcd\<close> (4 characters) of the table entry \<open>abcdefgh\<close> becomes the
  two null bytes.
\<close>

theorem remove_sequence_length_counterexample:
  "''abcdefgh'' \<in> set KEYBOARD_SEQUENCES \<and>
   remove_sequence ''abcd'' ''abcdefgh'' = Inr [CHR 0x00, CHR 0x00] \<and>
   length [CHR 0x00, CHR 0x00] \<noteq> length ''abcd''"
  by (simp add: remove_sequence_checked remove_sequence_abcd KEYBOARD_SEQUENCES_def)

text \<open>
  Claim C6, amended. The output of \<open>remove_sequence\<close> is never longer than its input. When
  the longest common substring with the keyboard sequence has at most 2 characters the
  string is returned unchanged; when it has more, that span is replaced by exactly two null
  bytes and the remainders are stripped in turn, so the output is shorter than the input
  by at least the span's length minus 2.
\<close>

theorem remove_sequence_length:
  "\<exists>start lcs out.
     longest_common_substring s k = Inr (start, lcs) \<and>
     remove_sequence s k = Inr out \<and>
     length out \<le> length s \<and>
     (length lcs \<le> 2 \<longrightarrow> out = s) \<and>
     (2 < length lcs \<longrightarrow>
        (\<exists>left right.
           remove_sequence (take (nat start) s) k = Inr left \<and>
           remove_sequence (drop (nat start + length lcs) s) k = Inr right \<and>
           out = left @ [CHR 0x00, CHR 0x00] @ right) \<and>
        length out + length lcs \<le> length s + 2)"
proof -
  obtain start lcs where r: "longest_common_substring_val s k = (start, lcs)"
    by (cases "longest_common_substring_val s k")
  let ?out = "remove_sequence_val s k"
  have r': "longest_common_substring s k = Inr (start, lcs)"
    using r by (simp add: longest_common_substring_checked)
  have o: "remove_sequence s k = Inr ?out" by (rule remove_sequence_checked)
  have a: "length ?out \<le> length s" by (rule remove_sequence_length_le)
  have b: "length lcs \<le> 2 \<longrightarrow> ?out = s"
    using remove_sequence_no_match [of s k] r by simp
  have c: "2 < length lcs \<longrightarrow>
      (\<exists>left right.
         remove_sequence (take (nat start) s) k = Inr left \<and>
         remove_sequence (drop (nat start + length lcs) s) k = Inr right \<and>
         ?out = left @ [CHR 0x00, CHR 0x00] @ right)"
    using remove_sequence_match [OF r] remove_sequence_checked by blast
  have d: "2 < length lcs \<longrightarrow> length ?out + length lcs \<le> length s + 2"
    using remove_sequence_shrinks [of s k] r by simp
  show ?thesis using r' o a b c d by blast
qed

theorem remove_sequence_length_witness:
  "longest_common_substring ''abcd'' ''abcdefgh'' = Inr (0, ''abcd'') \<and>
   2 < length ''abcd'' \<and>
   (\<exists>out. remove_sequence ''abcd'' ''abcdefgh'' = Inr out \<and>
          length out + length ''abcd'' \<le> length ''abcd'' + 2)"
proof -
  have h: "longest_common_substring ''abcd'' ''abcdefgh'' = Inr (0, ''abcd'')"
    by (simp add: longest_common_substring_checked lcs_abcd)
  have h2: "2 < length ''abcd''" by simp
  obtain start lcs out where
    a: "longest_common_substring ''abcd'' ''abcdefgh'' = Inr (start, lcs)"
    and b: "remove_sequence ''abcd'' ''abcdefgh'' = Inr out"
    and c: "2 < length lcs \<longrightarrow> length out + length lcs \<le> length ''abcd'' + 2"
    using remove_sequence_length [of "''abcd''" "''abcdefgh''"] by blast
  have "lcs = ''abcd''" using a h by simp
  then have "length out + length ''abcd'' \<le> length ''abcd'' + 2" using c by simp
  then show ?thesis using h h2 b by blast
qed

subsection \<open>Idempotence\<close>

lemma sublist_split_at:
  assumes "sublist w (u @ z # v)" "z \<notin> set w"
  shows "sublist w u \<or> sublist w v"
proof -
  from assms(1) have "sublist w u \<or> sublist w (z # v) \<or>
      (\<exists>w1 w2. w = w1 @ w2 \<and> suffix w1 u \<and> prefix w2 (z # v))"
    by (simp add: sublist_append)
  then show ?thesis
  proof (elim disjE exE conjE)
    assume "sublist w u" then show ?thesis by simp
  next
    assume "sublist w (z # v)"
    then have "prefix w (z # v) \<or> sublist w v" by (simp add: sublist_Cons_right)
    then show ?thesis
    proof
      assume "prefix w (z # v)"
      then have "w = []" using assms(2) by (cases w) auto
      then show ?thesis by simp
    qed simp
  next
    fix w1 w2 assume w: "w = w1 @ w2" "suffix w1 u" "prefix w2 (z # v)"
    have "w2 = []" using w(3,1) assms(2) by (cases w2) auto
    then have "suffix w u" using w by simp
    then show ?thesis using suffix_imp_sublist by blast
  qed
qed

text \<open>
  No fragment of the output shares more than 2 consecutive characters with the keyboard
  sequence, provided the null byte does not occur in the sequence.
\<close>

lemma remove_sequence_no_long_common:
  "CHR 0x00 \<notin> set k \<Longrightarrow> sublist w (remove_sequence_val s k) \<Longrightarrow> sublist w k \<Longrightarrow> length w \<le> 2"
proof (induction s k arbitrary: w rule: remove_sequence_val.induct)
  case (1 str keyboard_seq)
  obtain start lcs where r: "longest_common_substring_val str keyboard_seq = (start, lcs)"
    by (cases "longest_common_substring_val str keyboard_seq")
  show ?case
  proof (cases "2 < length lcs")
    case False
    then have "remove_sequence_val str keyboard_seq = str"
      using r by (intro remove_sequence_no_match) simp
    then have "length w \<le> length lcs"
      using lcs_maximal [of w str keyboard_seq] "1.prems" r by simp
    then show ?thesis using False by simp
  next
    case True
    note b = lcs_bounds [OF r]
    have pl: "py_slice_to str start = take (nat start) str"
      using b by (simp add: py_slice_to_def slice_bound_def)
    have pr: "py_slice_from str (start + int (length lcs)) = drop (nat start + length lcs) str"
      using b by (simp add: py_slice_from_def slice_bound_def nat_add_distrib)
    let ?l = "remove_sequence_val (take (nat start) str) keyboard_seq"
    let ?r = "remove_sequence_val (drop (nat start + length lcs) str) keyboard_seq"
    have eq: "remove_sequence_val str keyboard_seq = ?l @ [CHR 0x00, CHR 0x00] @ ?r"
      by (rule remove_sequence_match [OF r True])
    have nz: "CHR 0x00 \<notin> set w" using "1.prems"(1,3) set_mono_sublist by blast
    have "sublist w (?l @ CHR 0x00 # (CHR 0x00 # ?r))" using "1.prems"(2) eq by simp
    then have "sublist w ?l \<or> sublist w (CHR 0x00 # ?r)" using nz by (rule sublist_split_at)
    moreover have "sublist w ?r" if "sublist w (CHR 0x00 # ?r)"
      using sublist_split_at [of w "[]" "CHR 0x00" ?r] that nz by auto
    ultimately have "sublist w ?l \<or> sublist w ?r" by blast
    then show ?thesis
    proof
      assume "sublist w ?l"
      then show ?thesis
        using "1.IH"(1) [OF r [symmetric] True "1.prems"(1) _ "1.prems"(3)] pl by simp
    next
      assume "sublist w ?r"
      then show ?thesis
        using "1.IH"(2) [OF r [symmetric] True "1.prems"(1) _ "1.prems"(3)] pr by simp
    qed
  qed
qed

lemma lcs_sublist_left: "sublist (snd (longest_common_substring_val a b)) a"
proof -
  obtain start lcs where r: "longest_common_substring_val a b = (start, lcs)"
    by (cases "longest_common_substring_val a b")
  have "lcs = take (length lcs) (drop (nat start) a)" by (rule lcs_bounds(3) [OF r])
  then have "sublist lcs a"
    by (metis sublist_take sublist_drop sublist_order.order_trans)
  then show ?thesis using r by simp
qed

lemma remove_sequence_idem_general:
  assumes "CHR 0x00 \<notin> set k"
  shows "remove_sequence_val (remove_sequence_val s k) k = remove_sequence_val s k"
proof -
  let ?r = "remove_sequence_val s k"
  let ?lcs = "snd (longest_common_substring_val ?r k)"
  have "sublist ?lcs ?r" by (rule lcs_sublist_left)
  moreover have "sublist ?lcs k" by (rule lcs_sublist_right)
  ultimately have "length ?lcs \<le> 2" using remove_sequence_no_long_common [OF assms] by blast
  then show ?thesis by (rule remove_sequence_no_match)
qed

text \<open>
  Claim C10. For every string \<open>s\<close> and every entry \<open>k\<close> of the keyboard-sequence table,
  stripping \<open>k\<close> from the stripped string changes nothing: the null byte does not occur in
  \<open>k\<close>, and the stripped string shares no substring of more than 2 characters with \<open>k\<close>.
\<close>

theorem remove_sequence_idempotent:
  "k \<in> set KEYBOARD_SEQUENCES \<Longrightarrow>
   \<exists>out. remove_sequence s k = Inr out \<and>
         remove_sequence out k = Inr out \<and>
         CHR 0x00 \<notin> set k \<and>
         (\<forall>w. sublist w out \<and> sublist w k \<longrightarrow> length w \<le> 2)"
  using remove_sequence_idem_general [OF keyboard_sequences_no_sentinel, of k s]
    keyboard_sequences_no_sentinel [of k]
    remove_sequence_no_long_common [OF keyboard_sequences_no_sentinel, of k _ s]
    remove_sequence_checked
  by metis

theorem remove_sequence_idempotent_witness:
  "''abcdefgh'' \<in> set KEYBOARD_SEQUENCES \<and>
   remove_sequence ''abcd'' ''abcdefgh'' = Inr [CHR 0x00, CHR 0x00] \<and>
   remove_sequence [CHR 0x00, CHR 0x00] ''abcdefgh'' = Inr [CHR 0x00, CHR 0x00]"
proof -
  have h: "''abcdefgh'' \<in> set KEYBOARD_SEQUENCES" by (simp add: KEYBOARD_SEQUENCES_def)
  have e: "remove_sequence ''abcd'' ''abcdefgh'' = Inr [CHR 0x00, CHR 0x00]"
    by (simp add: remove_sequence_checked remove_sequence_abcd)
  obtain out where "remove_sequence ''abcd'' ''abcdefgh'' = Inr out"
    and "remove_sequence out ''abcdefgh'' = Inr out"
    using remove_sequence_idempotent [OF h, of "''abcd''"] by blast
  then show ?thesis using h e by simp
qed

section \<open>Characters\<close>

text \<open>
  \<^verbatim>\<open>ord\<close> and \<^verbatim>\<open>chr\<close> on bytes, the character tests of the source written with
  \<^verbatim>\<open>ord\<close> as the source writes them, and \<^verbatim>\<open>str.lower\<close> (in the C locale: only
  \<open>A\<close> to \<open>Z\<close> change).
\<close>

definition ord :: "char \<Rightarrow> nat" where
  "ord c = of_char c"

definition chr :: "nat \<Rightarrow> char" where
  "chr n = char_of n"

definition char_is_lower :: "char \<Rightarrow> bool" where
  "char_is_lower char = (ord CHR ''a'' \<le> ord char \<and> ord char \<le> ord CHR ''z'')"

definition char_is_upper :: "char \<Rightarrow> bool" where
  "char_is_upper char = (ord CHR ''A'' \<le> ord char \<and> ord char \<le> ord CHR ''Z'')"

definition char_is_digit :: "char \<Rightarrow> bool" where
  "char_is_digit char = (ord CHR ''0'' \<le> ord char \<and> ord char \<le> ord CHR ''9'')"

definition py_lower :: "string \<Rightarrow> string" where
  "py_lower s = map (\<lambda>c. if char_is_upper c then chr (ord c + 32) else c) s"

section \<open>NIST positional entropy\<close>

text \<open>
  Python floats are modelled as real numbers: the constants \<open>1.5\<close>, \<open>0.75\<close> and \<open>0.4\<close>
  are the rationals they denote and no rounding is modelled.

  The loop of the repetition-aware mode, \<^verbatim>\<open>for i in xrange(passlen)\<close>, over the characters
  that remain, with the position \<open>i\<close>, the table \<open>charmult\<close> and the running \<open>result\<close>.
\<close>

fun nist_repeat_loop :: "nat \<Rightarrow> string \<Rightarrow> real list \<Rightarrow> real \<Rightarrow> error + real" where
  "nist_repeat_loop i [] charmult result = Inr result"
| "nist_repeat_loop i (c # rest) charmult result =
     (case py_get charmult (int (ord c)) of
        Inl e \<Rightarrow> Inl e
      | Inr cur_mult \<Rightarrow>
          (let result' =
                 (if i \<ge> 19 then result + cur_mult
                  else if i \<ge> 8 then result + cur_mult * 1.5
                  else if i \<ge> 1 then result + cur_mult * 2
                  else result + 4)
           in nist_repeat_loop (i + 1) rest
                (charmult[ord c := max (cur_mult * 0.75) 0.4]) result'))"

definition get_NIST_num_bits :: "string \<Rightarrow> bool \<Rightarrow> error + real" where
  "get_NIST_num_bits password repeatcalc =
     (let passlen = length password
      in if repeatcalc then nist_repeat_loop 0 password (replicate 256 1) 0
         else if passlen > 20 then Inr (4 + (7 * 2) + (12 * 1.5) + real passlen - 20)
         else if passlen > 8 then Inr (4 + (7 * 2) + ((real passlen - 8) * 1.5))
         else if passlen > 1 then Inr (4 + ((real passlen - 1) * 2))
         else if passlen = 1 then Inr 4
         else Inr 0)"


subsection \<open>The specification's formulas\<close>

text \<open>
  These follow the words of the specification, not the code. A character's multiplier at
  position \<open>i\<close> is 1 decayed once for each earlier occurrence of that character; the
  repetition-aware bits are the sum over the positions; the other mode is a closed form in
  the length.
\<close>

definition spec_decay :: "real \<Rightarrow> real" where
  "spec_decay m = max (m * 0.75) 0.4"

definition spec_multiplier :: "string \<Rightarrow> nat \<Rightarrow> real" where
  "spec_multiplier s i = (spec_decay ^^ count_list (take i s) (s ! i)) 1"

definition spec_position_bits :: "nat \<Rightarrow> real \<Rightarrow> real" where
  "spec_position_bits i m =
     (if i = 0 then 4 else if i < 8 then m * 2 else if i < 19 then m * 1.5 else m * 1)"

definition spec_nist_repeat_bits :: "string \<Rightarrow> real" where
  "spec_nist_repeat_bits s = (\<Sum>i<length s. spec_position_bits i (spec_multiplier s i))"

definition spec_nist_bits :: "nat \<Rightarrow> real" where
  "spec_nist_bits n =
     (if n = 0 then 0
      else if n = 1 then 4
      else if n \<le> 8 then 4 + (real n - 1) * 2
      else if n \<le> 20 then 4 + 7 * 2 + (real n - 8) * 1.5
      else 4 + 7 * 2 + 12 * 1.5 + (real n - 20) * 1)"

lemma ord_less_256: "ord c < 256"
  by (simp add: ord_def)

lemma ord_eq_iff: "ord c = ord d \<longleftrightarrow> c = d"
  by (simp add: ord_def)

lemma count_list_snoc: "count_list (xs @ [c]) d = (if c = d then Suc (count_list xs d) else count_list xs d)"
  by (induction xs) auto

lemma nist_repeat_loop_spec:
  assumes "length charmult = 256"
    and "\<forall>c. charmult ! ord c = (spec_decay ^^ count_list pre c) 1"
  shows "nist_repeat_loop (length pre) cs charmult result =
         Inr (result + (\<Sum>j<length cs. spec_position_bits (length pre + j)
                                   (spec_multiplier (pre @ cs) (length pre + j))))"
  using assms
proof (induction cs arbitrary: pre charmult result)
  case Nil
  then show ?case by simp
next
  case (Cons c rest)
  let ?mult = "charmult ! ord c"
  let ?cm = "charmult[ord c := max (?mult * 0.75) 0.4]"
  let ?res = "result + spec_position_bits (length pre) ?mult"
  have get: "py_get charmult (int (ord c)) = Inr ?mult"
    using Cons.prems(1) ord_less_256 [of c] by (intro py_get_in_range) simp
  have res: "(if 19 \<le> length pre then result + ?mult
              else if 8 \<le> length pre then result + ?mult * 1.5
              else if 1 \<le> length pre then result + ?mult * 2
              else result + 4) = ?res"
    by (auto simp: spec_position_bits_def Suc_le_eq)
  have step: "nist_repeat_loop (length pre) (c # rest) charmult result =
              nist_repeat_loop (length (pre @ [c])) rest ?cm ?res"
    using get res by (simp add: Let_def)
  have len: "length ?cm = 256" using Cons.prems(1) by simp
  have inv: "\<forall>d. ?cm ! ord d = (spec_decay ^^ count_list (pre @ [c]) d) 1"
  proof
    fix d
    show "?cm ! ord d = (spec_decay ^^ count_list (pre @ [c]) d) 1"
    proof (cases "d = c")
      case True
      have "?cm ! ord c = spec_decay ?mult"
        using Cons.prems(1) ord_less_256 [of c] by (simp add: spec_decay_def)
      then show ?thesis using True Cons.prems(2) by (simp add: count_list_snoc)
    next
      case False
      then have "ord c \<noteq> ord d" by (simp add: ord_eq_iff)
      then have "?cm ! ord d = charmult ! ord d" by simp
      then show ?thesis using False Cons.prems(2) by (simp add: count_list_snoc)
    qed
  qed
  have mult: "?mult = spec_multiplier (pre @ c # rest) (length pre)"
    using Cons.prems(2) by (simp add: spec_multiplier_def)
  have "nist_repeat_loop (length (pre @ [c])) rest ?cm ?res =
        Inr (?res + (\<Sum>j<length rest. spec_position_bits (length (pre @ [c]) + j)
                              (spec_multiplier ((pre @ [c]) @ rest) (length (pre @ [c]) + j))))"
    by (rule Cons.IH [OF len inv])
  also have "\<dots> = Inr (result + (\<Sum>j<length (c # rest). spec_position_bits (length pre + j)
                              (spec_multiplier (pre @ c # rest) (length pre + j))))"
    using mult by (simp add: sum.lessThan_Suc_shift del: sum.lessThan_Suc)
  finally show ?case using step by simp
qed

lemma nist_repeat_bits: "get_NIST_num_bits s True = Inr (spec_nist_repeat_bits s)"
proof -
  have "\<forall>c. replicate 256 (1::real) ! ord c = (spec_decay ^^ count_list [] c) 1"
    using ord_less_256 by simp
  then have "nist_repeat_loop (length ([]::string)) s (replicate 256 1) 0 =
        Inr (0 + (\<Sum>j<length s. spec_position_bits (length ([]::string) + j)
                        (spec_multiplier ([] @ s) (length ([]::string) + j))))"
    by (intro nist_repeat_loop_spec) simp_all
  then show ?thesis by (simp add: get_NIST_num_bits_def spec_nist_repeat_bits_def)
qed

lemma nist_closed_form: "get_NIST_num_bits s False = Inr (spec_nist_bits (length s))"
  by (cases s) (auto simp: get_NIST_num_bits_def spec_nist_bits_def Let_def)

text \<open>
  Claim C2. Without \<open>repeatcalc\<close>, \<open>get_NIST_num_bits\<close> returns the length-banded closed
  form; with it, the sum over the positions \<open>i\<close> of 4 at \<open>i = 0\<close>, and of the character's
  current multiplier times 2 below position 8, times 1.5 below position 19 and times 1 from
  there on, where the multiplier of a character starts at 1 and becomes
  \<open>max (multiplier * 0.75) 0.4\<close> after each of its occurrences.
\<close>

theorem get_NIST_num_bits_formula:
  "get_NIST_num_bits s False =
     Inr (if length s = 0 then 0
          else if length s = 1 then 4
          else if length s \<le> 8 then 4 + (real (length s) - 1) * 2
          else if length s \<le> 20 then 4 + 7 * 2 + (real (length s) - 8) * 1.5
          else 4 + 7 * 2 + 12 * 1.5 + (real (length s) - 20) * 1) \<and>
   get_NIST_num_bits s True =
     Inr (\<Sum>i<length s. if i = 0 then 4
                         else if i < 8 then spec_multiplier s i * 2
                         else if i < 19 then spec_multiplier s i * 1.5
                         else spec_multiplier s i * 1)"
proof -
  have "get_NIST_num_bits s True =
     Inr (\<Sum>i<length s. if i = 0 then 4
                         else if i < 8 then spec_multiplier s i * 2
                         else if i < 19 then spec_multiplier s i * 1.5
                         else spec_multiplier s i * 1)"
    using nist_repeat_bits [of s] by (simp add: spec_nist_repeat_bits_def spec_position_bits_def)
  moreover have "get_NIST_num_bits s False =
     Inr (if length s = 0 then 0
          else if length s = 1 then 4
          else if length s \<le> 8 then 4 + (real (length s) - 1) * 2
          else if length s \<le> 20 then 4 + 7 * 2 + (real (length s) - 8) * 1.5
          else 4 + 7 * 2 + 12 * 1.5 + (real (length s) - 20) * 1)"
    using nist_closed_form [of s] by (simp add: spec_nist_bits_def)
  ultimately show ?thesis by blast
qed

section \<open>Leet-speak tables\<close>

text \<open>
  \<^verbatim>\<open>string.maketrans(frm, to)\<close> builds the 256-entry table that sends \<open>frm[i]\<close> to
  \<open>to[i]\<close> and every other byte to itself (a later pair overrides an earlier one), and
  \<^verbatim>\<open>s.translate(table)\<close> maps every byte of \<open>s\<close> through the table.
\<close>

definition maketrans :: "string \<Rightarrow> string \<Rightarrow> char \<Rightarrow> char" where
  "maketrans frm to = fold (\<lambda>(f, t) table. table(f := t)) (zip frm to) (\<lambda>c. c)"

definition translate :: "string \<Rightarrow> (char \<Rightarrow> char) \<Rightarrow> string" where
  "translate s table = map table s"

definition leetspeakmap :: "char \<Rightarrow> char" where
  "leetspeakmap = maketrans ''@!$1234567890'' ''aisizeasgtbgo''"

definition leetspeakmap2 :: "char \<Rightarrow> char" where
  "leetspeakmap2 = maketrans ''@!$1234567890'' ''aislzeasgtbgo''"

lemma leetspeakmap_apply:
  "leetspeakmap c =
     (if c = CHR ''@'' then CHR ''a'' else if c = CHR ''!'' then CHR ''i''
      else if c = CHR ''$'' then CHR ''s'' else if c = CHR ''1'' then CHR ''i''
      else if c = CHR ''2'' then CHR ''z'' else if c = CHR ''3'' then CHR ''e''
      else if c = CHR ''4'' then CHR ''a'' else if c = CHR ''5'' then CHR ''s''
      else if c = CHR ''6'' then CHR ''g'' else if c = CHR ''7'' then CHR ''t''
      else if c = CHR ''8'' then CHR ''b'' else if c = CHR ''9'' then CHR ''g''
      else if c = CHR ''0'' then CHR ''o'' else c)"
  by (simp add: leetspeakmap_def maketrans_def)

lemma leetspeakmap2_apply:
  "leetspeakmap2 c = (if c = CHR ''1'' then CHR ''l'' else leetspeakmap c)"
  by (simp add: leetspeakmap_def leetspeakmap2_def maketrans_def)

section \<open>Licence plates\<close>

text \<open>
  \<^verbatim>\<open>LICENCE_PLATE_REGEX\<close> is three groups, each two digits or two ASCII letters,
  joined by one of \<open>.\<close>, \<open>-\<close>, \<open>_\<close>: eight characters. The alternatives of a group
  exclude each other, so the pattern matches at a position exactly when the eight
  characters there have this shape; \<^verbatim>\<open>search\<close> returns the leftmost such position with
  its span and groups. \<^verbatim>\<open>islower\<close> on the characters of the groups (ASCII letters and
  digits) is \<open>char_is_lower\<close>.
\<close>

definition char_is_alpha :: "char \<Rightarrow> bool" where
  "char_is_alpha c = (char_is_lower c \<or> char_is_upper c)"

definition plate_group :: "char \<Rightarrow> char \<Rightarrow> bool" where
  "plate_group c1 c2 =
     ((char_is_digit c1 \<and> char_is_digit c2) \<or> (char_is_alpha c1 \<and> char_is_alpha c2))"

definition plate_separator :: "char \<Rightarrow> bool" where
  "plate_separator c = (c = CHR ''.'' \<or> c = CHR ''-'' \<or> c = CHR ''_'')"

fun licence_plate_match :: "string \<Rightarrow> (string \<times> string \<times> string) option" where
  "licence_plate_match (a # b # s1 # c # d # s2 # e # f # rest) =
     (if plate_group a b \<and> plate_separator s1 \<and> plate_group c d \<and> plate_separator s2
         \<and> plate_group e f
      then Some ([a, b], [c, d], [e, f]) else None)"
| "licence_plate_match s = None"

fun licence_plate_search :: "string \<Rightarrow> nat \<Rightarrow> ((nat \<times> nat) \<times> string \<times> string \<times> string) option" where
  "licence_plate_search [] pos = None"
| "licence_plate_search (c # rest) pos =
     (case licence_plate_match (c # rest) of
        Some groups \<Rightarrow> Some ((pos, pos + 8), groups)
      | None \<Rightarrow> licence_plate_search rest (pos + 1))"

definition handle_license_plates :: "string \<Rightarrow> string" where
  "handle_license_plates pwd =
     (case licence_plate_search pwd 0 of
        Some ((start, end'), (g1, g2, g3)) \<Rightarrow>
          (let filtered_license = g1 @ g2 @ g3;
               count_letters = length (filter char_is_lower filtered_license)
           in if count_letters = 2
              then py_slice_to pwd (int start) @ filtered_license @ py_slice_from pwd (int end')
              else pwd)
      | None \<Rightarrow> pwd)"


section \<open>Password variants\<close>

text \<open>
  \<^verbatim>\<open>PassVariant\<close> is a record. \<^verbatim>\<open>KeepMinDict\<close> is an association list from the
  variant's string to the variant, in insertion order: \<^verbatim>\<open>__setitem__\<close> stores the value
  when the key is new or when the value is smaller (\<^verbatim>\<open>__cmp__\<close> compares the entropies)
  than the one stored. \<^verbatim>\<open>values()\<close> is the list of the stored variants (a copy, in
  Python 2, so the loop over it may insert into the dictionary). The code updates the
  entropy of a stored variant in place; every key holds an object of its own (each
  \<^verbatim>\<open>PassVariant(...)\<close> is stored under one key at most), so an update of one entry
  changes no other and the model replaces the value of the entry.
\<close>

record PassVariant =
  password :: string
  entropy :: real

type_synonym KeepMinDict = "(string \<times> PassVariant) list"

fun keepmin_setitem :: "KeepMinDict \<Rightarrow> string \<Rightarrow> PassVariant \<Rightarrow> KeepMinDict" where
  "keepmin_setitem [] key v = [(key, v)]"
| "keepmin_setitem ((k, old) # rest) key v =
     (if k = key then (if entropy v < entropy old then (k, v) # rest else (k, old) # rest)
      else (k, old) # keepmin_setitem rest key v)"

definition dict_values :: "KeepMinDict \<Rightarrow> PassVariant list" where
  "dict_values d = map snd d"

definition reverse_string :: "string \<Rightarrow> string" where
  "reverse_string s = rev s"

definition reverse_password :: "PassVariant \<Rightarrow> PassVariant" where
  "reverse_password p = \<lparr>password = reverse_string (password p), entropy = entropy p + 1\<rparr>"

definition lower_pass :: "string \<Rightarrow> PassVariant" where
  "lower_pass orig_pass = \<lparr>password = py_lower orig_pass, entropy = 0\<rparr>"

definition rev_pass :: "string \<Rightarrow> PassVariant" where
  "rev_pass orig_pass = reverse_password (lower_pass orig_pass)"

definition leetspeak_pass :: "string \<Rightarrow> PassVariant" where
  "leetspeak_pass orig_pass =
     \<lparr>password = translate (password (lower_pass orig_pass)) leetspeakmap, entropy = 1\<rparr>"

definition leetspeak_pass2 :: "string \<Rightarrow> PassVariant" where
  "leetspeak_pass2 orig_pass =
     \<lparr>password = translate (password (lower_pass orig_pass)) leetspeakmap2, entropy = 1\<rparr>"

definition base_variants :: "string \<Rightarrow> KeepMinDict" where
  "base_variants orig_pass =
     (let d0 = keepmin_setitem [] (password (lower_pass orig_pass)) (lower_pass orig_pass);
          d1 = keepmin_setitem d0 (password (rev_pass orig_pass)) (rev_pass orig_pass);
          d2 = keepmin_setitem d1 (password (leetspeak_pass orig_pass)) (leetspeak_pass orig_pass);
          d3 = keepmin_setitem d2 (password (leetspeak_pass2 orig_pass)) (leetspeak_pass2 orig_pass)
      in d3)"

text \<open>
  The block under \<^verbatim>\<open>if find_keyboard_sequences\<close>: every variant is stripped of every
  keyboard sequence in turn (the loop \<^verbatim>\<open>for keyboard_seq in KEYBOARD_SEQUENCES\<close>), and a
  stripped string that differs is stored as a further variant with the entropy of its
  source.
\<close>

fun strip_keyboard_sequences_loop :: "string list \<Rightarrow> string \<Rightarrow> error + string" where
  "strip_keyboard_sequences_loop [] tmp_pass = Inr tmp_pass"
| "strip_keyboard_sequences_loop (keyboard_seq # rest) tmp_pass =
     (case remove_sequence tmp_pass keyboard_seq of
        Inl e \<Rightarrow> Inl e
      | Inr tmp_pass' \<Rightarrow> strip_keyboard_sequences_loop rest tmp_pass')"

definition strip_keyboard_sequences :: "string \<Rightarrow> error + string" where
  "strip_keyboard_sequences tmp_pass = strip_keyboard_sequences_loop KEYBOARD_SEQUENCES tmp_pass"

definition add_shortened :: "PassVariant \<Rightarrow> KeepMinDict \<Rightarrow> error + KeepMinDict" where
  "add_shortened cur_pass passwords_variants =
     (case strip_keyboard_sequences (password cur_pass) of
        Inl e \<Rightarrow> Inl e
      | Inr tmp_pass \<Rightarrow>
          if password cur_pass \<noteq> tmp_pass
          then Inr (keepmin_setitem passwords_variants tmp_pass
                      \<lparr>password = tmp_pass, entropy = entropy cur_pass\<rparr>)
          else Inr passwords_variants)"

fun find_keyboard_sequences_loop :: "PassVariant list \<Rightarrow> KeepMinDict \<Rightarrow> error + KeepMinDict" where
  "find_keyboard_sequences_loop [] passwords_variants = Inr passwords_variants"
| "find_keyboard_sequences_loop (cur_pass # rest) passwords_variants =
     (case add_shortened cur_pass passwords_variants of
        Inl e \<Rightarrow> Inl e
      | Inr passwords_variants' \<Rightarrow> find_keyboard_sequences_loop rest passwords_variants')"

definition find_keyboard_sequences :: "KeepMinDict \<Rightarrow> error + KeepMinDict" where
  "find_keyboard_sequences passwords_variants =
     find_keyboard_sequences_loop (dict_values passwords_variants) passwords_variants"

text \<open>The values these compute, and that they are returned.\<close>

definition strip_keyboard_sequences_val :: "string \<Rightarrow> string" where
  "strip_keyboard_sequences_val tmp_pass =
     fold (\<lambda>keyboard_seq tmp_pass. remove_sequence_val tmp_pass keyboard_seq)
          KEYBOARD_SEQUENCES tmp_pass"

definition add_shortened_val :: "PassVariant \<Rightarrow> KeepMinDict \<Rightarrow> KeepMinDict" where
  "add_shortened_val cur_pass passwords_variants =
     (let tmp_pass = strip_keyboard_sequences_val (password cur_pass)
      in if password cur_pass \<noteq> tmp_pass
         then keepmin_setitem passwords_variants tmp_pass
                \<lparr>password = tmp_pass, entropy = entropy cur_pass\<rparr>
         else passwords_variants)"

definition find_keyboard_sequences_val :: "KeepMinDict \<Rightarrow> KeepMinDict" where
  "find_keyboard_sequences_val passwords_variants =
     fold add_shortened_val (dict_values passwords_variants) passwords_variants"

lemma strip_keyboard_sequences_loop_checked:
  "strip_keyboard_sequences_loop ks t =
   Inr (fold (\<lambda>keyboard_seq tmp_pass. remove_sequence_val tmp_pass keyboard_seq) ks t)"
  by (induction ks arbitrary: t) (simp_all add: remove_sequence_checked)

lemma strip_keyboard_sequences_checked:
  "strip_keyboard_sequences t = Inr (strip_keyboard_sequences_val t)"
  by (simp add: strip_keyboard_sequences_def strip_keyboard_sequences_val_def
      strip_keyboard_sequences_loop_checked)

lemma add_shortened_checked: "add_shortened cur d = Inr (add_shortened_val cur d)"
  by (simp add: add_shortened_def add_shortened_val_def strip_keyboard_sequences_checked Let_def)

lemma find_keyboard_sequences_loop_checked:
  "find_keyboard_sequences_loop vs d = Inr (fold add_shortened_val vs d)"
  by (induction vs arbitrary: d) (simp_all add: add_shortened_checked)

lemma find_keyboard_sequences_checked:
  "find_keyboard_sequences d = Inr (find_keyboard_sequences_val d)"
  by (simp add: find_keyboard_sequences_def find_keyboard_sequences_val_def
      find_keyboard_sequences_loop_checked)

section \<open>Dictionary words\<close>

text \<open>
  The word list that \<^verbatim>\<open>load_dict_words\<close> reads from a file is a parameter
  \<open>dict_words\<close> of the model. \<^verbatim>\<open>s.index(sub)\<close> is the least offset at which \<open>sub\<close>
  occurs and raises \<^verbatim>\<open>ValueError\<close> when there is none; \<^verbatim>\<open>sub in s\<close> is \<open>sublist\<close>.

  \<open>scan_dict_words\<close> is the loop \<^verbatim>\<open>for dict_word in dict_words\<close>: it returns \<open>True\<close>
  when the loop is left by \<^verbatim>\<open>break\<close> and \<open>False\<close> when the list is exhausted, which is
  when the \<^verbatim>\<open>else\<close> of the loop adds 6. The loop and its \<^verbatim>\<open>else\<close> stand inside
  \<^verbatim>\<open>if len(clean_pass) >= minwordlen\<close>.
\<close>

definition minwordlen :: nat where
  "minwordlen = 3"

definition minword_accept_len :: nat where
  "minword_accept_len = 6"

definition get_substrings_set :: "string \<Rightarrow> nat \<Rightarrow> string set" where
  "get_substrings_set str min_length =
     set (concat (map (\<lambda>substr_len.
                         map (\<lambda>substr_start. take substr_len (drop substr_start str))
                             [0..<length str - substr_len + 1])
                      [min_length..<length str + 1]))"

fun str_index_from :: "string \<Rightarrow> string \<Rightarrow> nat \<Rightarrow> error + nat" where
  "str_index_from [] sub pos = (if sub = [] then Inr pos else Inl ValueError)"
| "str_index_from (c # rest) sub pos =
     (if prefix sub (c # rest) then Inr pos else str_index_from rest sub (pos + 1))"

definition str_index :: "string \<Rightarrow> string \<Rightarrow> error + nat" where
  "str_index s sub = str_index_from s sub 0"

fun scan_dict_words :: "string \<Rightarrow> nat \<Rightarrow> string set \<Rightarrow> string list \<Rightarrow> error + bool" where
  "scan_dict_words clean_pass n_alpha_chars substr_set [] = Inr False"
| "scan_dict_words clean_pass n_alpha_chars substr_set (dict_word # rest) =
     (if dict_word \<in> substr_set \<and> sublist dict_word clean_pass then
        (if length dict_word \<ge> minword_accept_len then Inr True
         else if length dict_word * 2 \<le> n_alpha_chars
         then scan_dict_words clean_pass n_alpha_chars substr_set rest
         else (case str_index clean_pass dict_word of
                 Inl e \<Rightarrow> Inl e
               | Inr start_match \<Rightarrow>
                   if start_match = 0 then Inr True
                   else (case py_get clean_pass (int start_match - 1) of
                           Inl e \<Rightarrow> Inl e
                         | Inr prev_char \<Rightarrow>
                             if \<not> char_is_lower prev_char then Inr True
                             else scan_dict_words clean_pass n_alpha_chars substr_set rest)))
      else scan_dict_words clean_pass n_alpha_chars substr_set rest)"

definition clean_password :: "string \<Rightarrow> string" where
  "clean_password pass = filter (\<lambda>char. char \<noteq> CHR 0x00) pass"

definition find_dict_word :: "string list \<Rightarrow> PassVariant \<Rightarrow> error + PassVariant" where
  "find_dict_word dict_words cur_pass =
     (let clean_pass = clean_password (password cur_pass);
          n_alpha_chars = length (filter char_is_lower clean_pass)
      in if length clean_pass \<ge> minwordlen then
           (case scan_dict_words clean_pass n_alpha_chars
                   (get_substrings_set clean_pass minwordlen) dict_words of
              Inl e \<Rightarrow> Inl e
            | Inr found \<Rightarrow>
                if found then Inr cur_pass
                else Inr (cur_pass\<lparr>entropy := entropy cur_pass + 6\<rparr>))
         else Inr cur_pass)"

text \<open>
  \<^verbatim>\<open>for v in d.values(): ...\<close> where the body updates the variant in place: the
  dictionary with every value updated, or the first exception.
\<close>

fun for_each_value :: "(PassVariant \<Rightarrow> error + PassVariant) \<Rightarrow> KeepMinDict \<Rightarrow> error + KeepMinDict" where
  "for_each_value f [] = Inr []"
| "for_each_value f ((k, v) # rest) =
     (case f v of
        Inl e \<Rightarrow> Inl e
      | Inr v' \<Rightarrow> (case for_each_value f rest of
                     Inl e \<Rightarrow> Inl e
                   | Inr rest' \<Rightarrow> Inr ((k, v') # rest')))"

definition find_dict_words :: "string list \<Rightarrow> KeepMinDict \<Rightarrow> error + KeepMinDict" where
  "find_dict_words dict_words passwords_variants =
     for_each_value (find_dict_word dict_words) passwords_variants"

definition add_NIST_num_bits :: "PassVariant \<Rightarrow> error + PassVariant" where
  "add_NIST_num_bits pwd =
     (case get_NIST_num_bits (password pwd) False of
        Inl e \<Rightarrow> Inl e
      | Inr bits \<Rightarrow> Inr (pwd\<lparr>entropy := entropy pwd + bits\<rparr>))"

fun py_min :: "real list \<Rightarrow> error + real" where
  "py_min [] = Inl ValueError"
| "py_min (x # xs) = Inr (fold (\<lambda>y m. if y < m then y else m) xs x)"

section \<open>The aggregator\<close>

text \<open>
  \<open>char_classes\<close> is the loop that sets the four flags, \<open>keyspace_size\<close> the sum the
  code calls \<^verbatim>\<open>keyspace_multiplier\<close> before the logarithm, and \<^verbatim>\<open>math.log\<close> raises
  \<^verbatim>\<open>ValueError\<close> on an argument that is not positive. \<open>entropy_of_normalized\<close> is the
  body of \<^verbatim>\<open>get_entropy_bits\<close> from the character scan on, applied to the password that
  \<^verbatim>\<open>handle_license_plates\<close> returned.
\<close>

fun char_classes :: "string \<Rightarrow> bool \<times> bool \<times> bool \<times> bool \<Rightarrow> bool \<times> bool \<times> bool \<times> bool" where
  "char_classes [] flags = flags"
| "char_classes (char # rest) (upper, lower, digits, other) =
     (if ord CHR ''A'' \<le> ord char \<and> ord char \<le> ord CHR ''Z''
      then char_classes rest (True, lower, digits, other)
      else if ord CHR ''a'' \<le> ord char \<and> ord char \<le> ord CHR ''z''
      then char_classes rest (upper, True, digits, other)
      else if ord CHR ''0'' \<le> ord char \<and> ord char \<le> ord CHR ''9''
      then char_classes rest (upper, lower, True, other)
      else char_classes rest (upper, lower, digits, True))"

definition keyspace_size :: "string \<Rightarrow> nat" where
  "keyspace_size orig_pass =
     (case char_classes orig_pass (False, False, False, False) of
        (upper, lower, digits, other) \<Rightarrow>
          (if lower then 26 else 0) + (if upper then 26 else 0)
          + (if digits then 10 else 0) + (if other then 32 else 0))"

definition math_log :: "real \<Rightarrow> error + real" where
  "math_log x = (if x \<le> 0 then Inl ValueError else Inr (ln x))"

definition keyspace_multiplier :: "string \<Rightarrow> error + real" where
  "keyspace_multiplier orig_pass =
     (case math_log (real (keyspace_size orig_pass)) of
        Inl e \<Rightarrow> Inl e
      | Inr num \<Rightarrow> (case math_log 26 of
                     Inl e \<Rightarrow> Inl e
                   | Inr den \<Rightarrow> Inr (num / den)))"

definition entropy_of_normalized :: "string list \<Rightarrow> string \<Rightarrow> error + real" where
  "entropy_of_normalized dict_words orig_pass =
     (case keyspace_multiplier orig_pass of
        Inl e \<Rightarrow> Inl e
      | Inr multiplier \<Rightarrow>
     (case find_keyboard_sequences (base_variants orig_pass) of
        Inl e \<Rightarrow> Inl e
      | Inr with_shortened \<Rightarrow>
     (case find_dict_words dict_words with_shortened of
        Inl e \<Rightarrow> Inl e
      | Inr with_bonus \<Rightarrow>
     (case for_each_value add_NIST_num_bits with_bonus of
        Inl e \<Rightarrow> Inl e
      | Inr with_bits \<Rightarrow>
     (case py_min (map entropy (dict_values with_bits)) of
        Inl e \<Rightarrow> Inl e
      | Inr min_entropy \<Rightarrow>
     (case get_NIST_num_bits orig_pass True of
        Inl e \<Rightarrow> Inl e
      | Inr bits \<Rightarrow>
          (let orig_pass_entropy = bits + 6;
               min_entropy' = (if orig_pass_entropy < min_entropy then orig_pass_entropy
                               else min_entropy)
           in Inr (min_entropy' * multiplier))))))))"

definition get_entropy_bits :: "string list \<Rightarrow> string \<Rightarrow> error + real" where
  "get_entropy_bits dict_words orig_pass =
     (if orig_pass = [] then Inr 0
      else if card (set orig_pass) = 1 then Inr 6
      else entropy_of_normalized dict_words (handle_license_plates orig_pass))"

section \<open>The stages against their specification\<close>

subsection \<open>Dictionary detection, in the specification's words\<close>

text \<open>
  \<open>first_occurrence s w\<close> is the least offset at which \<open>w\<close> occurs in \<open>s\<close> (when it
  occurs). \<open>word_accepted clean w\<close>: the word is in the set of substrings of length at least 3 of
  the clean string, occurs in it, and is either at least 6 long, or longer than half the
  number of lowercase letters of the clean string and its first occurrence starts the
  string or follows a character that is not a lowercase letter.
\<close>

definition first_occurrence :: "string \<Rightarrow> string \<Rightarrow> nat" where
  "first_occurrence s w = length (takeWhile (\<lambda>i. \<not> prefix w (drop i s)) [0..<Suc (length s)])"

definition word_accepted :: "string \<Rightarrow> string \<Rightarrow> bool" where
  "word_accepted clean w =
     (w \<in> get_substrings_set clean 3 \<and> sublist w clean \<and>
      (6 \<le> length w \<or>
       (length (filter char_is_lower clean) < length w * 2 \<and>
        (first_occurrence clean w = 0 \<or>
         \<not> char_is_lower (clean ! (first_occurrence clean w - 1))))))"

definition spec_detect :: "string list \<Rightarrow> PassVariant \<Rightarrow> PassVariant" where
  "spec_detect dict_words v =
     (if 3 \<le> length (clean_password (password v)) \<and>
         \<not> (\<exists>w \<in> set dict_words. word_accepted (clean_password (password v)) w)
      then v\<lparr>entropy := entropy v + 6\<rparr> else v)"

lemma first_occurrence_Nil: "first_occurrence [] w = (if w = [] then 0 else 1)"
  by (simp add: first_occurrence_def)

lemma first_occurrence_Cons:
  "first_occurrence (c # s) w = (if prefix w (c # s) then 0 else Suc (first_occurrence s w))"
proof -
  have e: "[0..<Suc (Suc (length s))] = 0 # map Suc [0..<Suc (length s)]"
    by (subst upt_rec) (simp add: map_Suc_upt del: upt_Suc)
  show ?thesis
    unfolding first_occurrence_def length_Cons e
    by (simp add: takeWhile_map comp_def del: upt_Suc)
qed

lemma str_index_from_first:
  "sublist w s \<Longrightarrow> str_index_from s w pos = Inr (pos + first_occurrence s w)"
proof (induction s arbitrary: pos)
  case Nil
  then show ?case by (simp add: first_occurrence_Nil)
next
  case (Cons c s)
  show ?case
  proof (cases "prefix w (c # s)")
    case True
    then show ?thesis by (simp add: first_occurrence_Cons)
  next
    case False
    then have "sublist w s" using Cons.prems by (simp add: sublist_Cons_right)
    then show ?thesis using False Cons.IH [of "pos + 1"] by (simp add: first_occurrence_Cons)
  qed
qed

lemma str_index_first: "sublist w s \<Longrightarrow> str_index s w = Inr (first_occurrence s w)"
  using str_index_from_first [of w s 0] by (simp add: str_index_def)

lemma first_occurrence_le: "sublist w s \<Longrightarrow> first_occurrence s w \<le> length s"
proof (induction s)
  case Nil
  then show ?case by (simp add: first_occurrence_Nil)
next
  case (Cons c s)
  then show ?case by (auto simp: first_occurrence_Cons sublist_Cons_right)
qed

lemma first_occurrence_prefix: "sublist w s \<Longrightarrow> prefix w (drop (first_occurrence s w) s)"
proof (induction s)
  case Nil
  then show ?case by (simp add: first_occurrence_Nil)
next
  case (Cons c s)
  then show ?case by (auto simp: first_occurrence_Cons sublist_Cons_right)
qed

lemma first_occurrence_least: "i < first_occurrence s w \<Longrightarrow> \<not> prefix w (drop i s)"
proof (induction s arbitrary: i)
  case Nil
  then show ?case by (auto simp: first_occurrence_Nil split: if_splits)
next
  case (Cons c s)
  then show ?case by (cases i) (auto simp: first_occurrence_Cons split: if_splits)
qed

lemma get_substrings_set_mem:
  "w \<in> get_substrings_set s n \<longleftrightarrow>
   (\<exists>l st. n \<le> l \<and> l \<le> length s \<and> st \<le> length s - l \<and> w = take l (drop st s))"
proof -
  have "w \<in> get_substrings_set s n \<longleftrightarrow>
        (\<exists>l \<in> {n..<Suc (length s)}. \<exists>st \<in> {0..<Suc (length s - l)}. w = take l (drop st s))"
    unfolding get_substrings_set_def by (auto simp del: upt_Suc)
  also have "\<dots> \<longleftrightarrow>
        (\<exists>l st. n \<le> l \<and> l \<le> length s \<and> st \<le> length s - l \<and> w = take l (drop st s))"
    unfolding Bex_def atLeastLessThan_iff less_Suc_eq_le by blast
  finally show ?thesis .
qed

lemma get_substrings_set_iff:
  "w \<in> get_substrings_set s n \<longleftrightarrow> sublist w s \<and> n \<le> length w"
proof
  assume "w \<in> get_substrings_set s n"
  then obtain l st where l: "n \<le> l" "l \<le> length s" and st: "st \<le> length s - l"
    and w: "w = take l (drop st s)"
    unfolding get_substrings_set_mem by blast
  have "length w = l" using w l st by simp
  moreover have "sublist w s"
    unfolding w by (metis sublist_take sublist_drop sublist_order.order_trans)
  ultimately show "sublist w s \<and> n \<le> length w" using l by simp
next
  assume a: "sublist w s \<and> n \<le> length w"
  then obtain p q where s: "s = p @ w @ q" unfolding sublist_def by blast
  have "w = take (length w) (drop (length p) s)" using s by simp
  moreover have "length w \<le> length s" "length p \<le> length s - length w" using s by simp_all
  ultimately show "w \<in> get_substrings_set s n"
    using a unfolding get_substrings_set_mem by blast
qed

lemma scan_dict_words_spec:
  "scan_dict_words clean (length (filter char_is_lower clean)) (get_substrings_set clean 3) ws =
   Inr (\<exists>w \<in> set ws. word_accepted clean w)"
proof (induction ws)
  case Nil
  then show ?case by simp
next
  case (Cons w ws)
  show ?case
  proof (cases "w \<in> get_substrings_set clean 3 \<and> sublist w clean")
    case False
    then show ?thesis using Cons.IH by (auto simp: word_accepted_def)
  next
    case True
    then have sl: "sublist w clean" by simp
    note idx = str_index_first [OF sl]
    have le: "first_occurrence clean w \<le> length clean" by (rule first_occurrence_le [OF sl])
    have get: "py_get clean (int (first_occurrence clean w) - 1) =
               Inr (clean ! (first_occurrence clean w - 1))"
      if "first_occurrence clean w \<noteq> 0"
      using that le py_get_in_range [of "first_occurrence clean w - 1" clean]
      by (simp add: of_nat_diff)
    show ?thesis
      using True Cons.IH idx get
      by (auto simp: word_accepted_def minword_accept_len_def)
  qed
qed

lemma find_dict_word_spec: "find_dict_word ws v = Inr (spec_detect ws v)"
  using scan_dict_words_spec [of "clean_password (password v)" ws]
  by (simp add: find_dict_word_def spec_detect_def minwordlen_def Let_def)

lemma for_each_value_total:
  "(\<And>v. f v = Inr (g v)) \<Longrightarrow> for_each_value f d = Inr (map (\<lambda>(k, v). (k, g v)) d)"
  by (induction d) auto

lemma find_dict_words_spec:
  "find_dict_words ws d = Inr (map (\<lambda>(k, v). (k, spec_detect ws v)) d)"
  unfolding find_dict_words_def by (rule for_each_value_total) (rule find_dict_word_spec)

subsection \<open>Key space\<close>

text \<open>
  The key space in the specification's words: the sum, over the four classes of which the
  string has a character, of the class sizes.
\<close>

definition char_is_other :: "char \<Rightarrow> bool" where
  "char_is_other c = (\<not> char_is_upper c \<and> \<not> char_is_lower c \<and> \<not> char_is_digit c)"

definition spec_keyspace_size :: "string \<Rightarrow> nat" where
  "spec_keyspace_size s =
     (if (\<exists>c \<in> set s. char_is_lower c) then 26 else 0)
     + (if (\<exists>c \<in> set s. char_is_upper c) then 26 else 0)
     + (if (\<exists>c \<in> set s. char_is_digit c) then 10 else 0)
     + (if (\<exists>c \<in> set s. char_is_other c) then 32 else 0)"

lemma char_classes_spec:
  "char_classes s (upper, lower, digits, other) =
     (upper \<or> (\<exists>c \<in> set s. char_is_upper c), lower \<or> (\<exists>c \<in> set s. char_is_lower c),
      digits \<or> (\<exists>c \<in> set s. char_is_digit c), other \<or> (\<exists>c \<in> set s. char_is_other c))"
proof (induction s arbitrary: upper lower digits other)
  case Nil
  then show ?case by simp
next
  case (Cons c s)
  have ul: "\<not> (char_is_upper c \<and> char_is_lower c)"
    and ud: "\<not> (char_is_upper c \<and> char_is_digit c)"
    and ld: "\<not> (char_is_lower c \<and> char_is_digit c)"
    by (auto simp: char_is_upper_def char_is_lower_def char_is_digit_def ord_def)
  consider "char_is_upper c" | "\<not> char_is_upper c" "char_is_lower c"
    | "\<not> char_is_upper c" "\<not> char_is_lower c" "char_is_digit c" | "char_is_other c"
    unfolding char_is_other_def by blast
  then show ?case
  proof cases
    case 1
    then have "char_classes (c # s) (upper, lower, digits, other) =
               char_classes s (True, lower, digits, other)"
      by (simp add: char_is_upper_def)
    then show ?thesis using 1 ul ud Cons.IH by (auto simp: char_is_other_def)
  next
    case 2
    then have "char_classes (c # s) (upper, lower, digits, other) =
               char_classes s (upper, True, digits, other)"
      by (auto simp: char_is_upper_def char_is_lower_def)
    then show ?thesis using 2 ld Cons.IH by (auto simp: char_is_other_def)
  next
    case 3
    then have "char_classes (c # s) (upper, lower, digits, other) =
               char_classes s (upper, lower, True, other)"
      by (auto simp: char_is_upper_def char_is_lower_def char_is_digit_def)
    then show ?thesis using 3 Cons.IH by (auto simp: char_is_other_def)
  next
    case 4
    then have "char_classes (c # s) (upper, lower, digits, other) =
               char_classes s (upper, lower, digits, True)"
      by (auto simp: char_is_upper_def char_is_lower_def char_is_digit_def char_is_other_def)
    then show ?thesis using 4 Cons.IH by (auto simp: char_is_other_def)
  qed
qed

lemma keyspace_size_spec: "keyspace_size s = spec_keyspace_size s"
  by (simp add: keyspace_size_def char_classes_spec spec_keyspace_size_def)

lemma keyspace_size_pos: "s \<noteq> [] \<Longrightarrow> 10 \<le> keyspace_size s"
proof -
  assume "s \<noteq> []"
  then obtain c where c: "c \<in> set s" by (cases s) auto
  have "char_is_lower c \<or> char_is_upper c \<or> char_is_digit c \<or> char_is_other c"
    by (auto simp: char_is_other_def)
  then show ?thesis using c unfolding keyspace_size_spec spec_keyspace_size_def
    by (auto simp: add_increasing add_increasing2)
qed

lemma keyspace_multiplier_total:
  "s \<noteq> [] \<Longrightarrow> keyspace_multiplier s = Inr (ln (real (keyspace_size s)) / ln 26)"
  using keyspace_size_pos [of s] by (simp add: keyspace_multiplier_def math_log_def)

lemma keyspace_multiplier_nonneg: "s \<noteq> [] \<Longrightarrow> 0 \<le> ln (real (keyspace_size s)) / ln 26"
  using keyspace_size_pos [of s] by simp

subsection \<open>Licence plates\<close>

lemma licence_plate_search_bounds:
  "licence_plate_search s pos = Some ((start, end'), (g1, g2, g3)) \<Longrightarrow>
   pos \<le> start \<and> end' = start + 8 \<and> end' \<le> pos + length s \<and>
   length g1 = 2 \<and> length g2 = 2 \<and> length g3 = 2"
proof (induction s arbitrary: pos)
  case Nil
  then show ?case by simp
next
  case (Cons c s)
  show ?case
  proof (cases "licence_plate_match (c # s)")
    case None
    then have "licence_plate_search s (pos + 1) = Some ((start, end'), (g1, g2, g3))"
      using Cons.prems by simp
    from Cons.IH [OF this] show ?thesis by simp
  next
    case (Some g)
    then have g: "g = (g1, g2, g3)" and se: "start = pos" "end' = pos + 8"
      using Cons.prems by simp_all
    have "8 \<le> length (c # s) \<and> length g1 = 2 \<and> length g2 = 2 \<and> length g3 = 2"
      using Some g by (cases "(c # s)" rule: licence_plate_match.cases) (auto split: if_splits)
    then show ?thesis using se by simp
  qed
qed

lemma handle_license_plates_nonempty: "s \<noteq> [] \<Longrightarrow> handle_license_plates s \<noteq> []"
  by (auto simp: handle_license_plates_def Let_def split: option.splits prod.splits
      dest!: licence_plate_search_bounds)

subsection \<open>The minimum\<close>

lemma fold_min_eq: "fold (\<lambda>y m. if y < m then y else m) xs (x::real) = Min (set (x # xs))"
proof (induction xs arbitrary: x)
  case Nil
  then show ?case by simp
next
  case (Cons y xs)
  have "(if y < x then y else x) = min x y" by (simp add: min_def)
  then have "fold (\<lambda>y m. if y < m then y else m) (y # xs) x = Min (set (min x y # xs))"
    using Cons.IH [of "min x y"] by simp
  also have "\<dots> = Min (set (x # y # xs))"
    by (cases "xs = []") (simp_all add: Min_insert2 min.assoc)
  finally show ?case .
qed

lemma py_min_eq: "xs \<noteq> [] \<Longrightarrow> py_min xs = Inr (Min (set xs))"
  by (cases xs) (simp_all add: fold_min_eq del: set_simps)

subsection \<open>The variant collection\<close>

lemma keepmin_setitem_nonempty: "keepmin_setitem d k v \<noteq> []"
  by (induction d k v rule: keepmin_setitem.induct) auto

lemma keepmin_setitem_values:
  "set (dict_values (keepmin_setitem d k v)) \<subseteq> insert v (set (dict_values d))"
  by (induction d k v rule: keepmin_setitem.induct) (auto simp: dict_values_def)

lemma base_variants_nonempty: "base_variants p \<noteq> []"
  by (simp add: base_variants_def Let_def keepmin_setitem_nonempty)

lemma keepmin_setitem_values_in:
  "set (dict_values d) \<subseteq> A \<Longrightarrow> v \<in> A \<Longrightarrow> set (dict_values (keepmin_setitem d k v)) \<subseteq> A"
  using keepmin_setitem_values [of d k v] by blast

lemma base_variants_values:
  "set (dict_values (base_variants p))
   \<subseteq> {lower_pass p, rev_pass p, leetspeak_pass p, leetspeak_pass2 p}"
  unfolding base_variants_def Let_def
  by (intro keepmin_setitem_values_in) (simp_all add: dict_values_def)

lemma base_variants_nonneg: "v \<in> set (dict_values (base_variants p)) \<Longrightarrow> 0 \<le> entropy v"
  using base_variants_values [of p]
  by (auto simp: lower_pass_def rev_pass_def reverse_password_def leetspeak_pass_def
      leetspeak_pass2_def)

lemma add_shortened_nonempty: "d \<noteq> [] \<Longrightarrow> add_shortened_val cur d \<noteq> []"
  by (simp add: add_shortened_val_def Let_def keepmin_setitem_nonempty)

lemma add_shortened_nonneg:
  assumes "\<forall>v \<in> set (dict_values d). 0 \<le> entropy v" "0 \<le> entropy cur"
  shows "\<forall>v \<in> set (dict_values (add_shortened_val cur d)). 0 \<le> entropy v"
proof -
  let ?tmp = "strip_keyboard_sequences_val (password cur)"
  let ?new = "\<lparr>password = ?tmp, entropy = entropy cur\<rparr>"
  have "set (dict_values (keepmin_setitem d ?tmp ?new)) \<subseteq> insert ?new (set (dict_values d))"
    by (rule keepmin_setitem_values)
  then have "\<forall>v \<in> set (dict_values (keepmin_setitem d ?tmp ?new)). 0 \<le> entropy v"
    using assms by auto
  then show ?thesis using assms(1) by (simp add: add_shortened_val_def Let_def)
qed

lemma find_keyboard_sequences_fold:
  assumes "d \<noteq> []" "\<forall>v \<in> set (dict_values d). 0 \<le> entropy v" "\<forall>v \<in> set vs. 0 \<le> entropy v"
  shows "fold add_shortened_val vs d \<noteq> [] \<and>
         (\<forall>v \<in> set (dict_values (fold add_shortened_val vs d)). 0 \<le> entropy v)"
  using assms
proof (induction vs arbitrary: d)
  case Nil
  then show ?case by simp
next
  case (Cons cur vs)
  have ne: "add_shortened_val cur d \<noteq> []" using Cons.prems(1) by (rule add_shortened_nonempty)
  have nn: "\<forall>v \<in> set (dict_values (add_shortened_val cur d)). 0 \<le> entropy v"
    using Cons.prems(2,3) by (intro add_shortened_nonneg) simp_all
  have vs: "\<forall>v \<in> set vs. 0 \<le> entropy v" using Cons.prems(3) by simp
  from Cons.IH [OF ne nn vs] show ?case by simp
qed

lemma find_keyboard_sequences_nonempty: "find_keyboard_sequences_val (base_variants p) \<noteq> []"
  unfolding find_keyboard_sequences_val_def
  using find_keyboard_sequences_fold [OF base_variants_nonempty, of p "dict_values (base_variants p)"]
    base_variants_nonneg [of _ p] by blast

lemma find_keyboard_sequences_nonneg:
  "v \<in> set (dict_values (find_keyboard_sequences_val (base_variants p))) \<Longrightarrow> 0 \<le> entropy v"
  unfolding find_keyboard_sequences_val_def
  using find_keyboard_sequences_fold [OF base_variants_nonempty, of p "dict_values (base_variants p)"]
    base_variants_nonneg [of _ p] by blast

subsection \<open>The order of iteration\<close>

text \<open>
  A Python 2 dictionary lists its values in an order that the language does not fix. The
  loop over the variants that adds the shortened ones gives the same dictionary, as a set
  of entries, whatever the order in which it visits them: keep-minimum insertion into the
  map from strings to variants commutes. (The later loops update each variant on its own,
  and the result is a minimum over all of them.)
\<close>

definition keepmin_update ::
  "(string \<rightharpoonup> PassVariant) \<Rightarrow> string \<Rightarrow> PassVariant \<Rightarrow> (string \<rightharpoonup> PassVariant)" where
  "keepmin_update m k v =
     (case m k of None \<Rightarrow> m(k \<mapsto> v)
      | Some old \<Rightarrow> if entropy v < entropy old then m(k \<mapsto> v) else m)"

lemma map_of_keepmin_setitem: "map_of (keepmin_setitem d k v) = keepmin_update (map_of d) k v"
  by (induction d k v rule: keepmin_setitem.induct) (auto simp: keepmin_update_def split: option.splits)

lemma keepmin_setitem_keys: "fst ` set (keepmin_setitem d k v) = insert k (fst ` set d)"
  by (induction d k v rule: keepmin_setitem.induct) auto

lemma keepmin_setitem_distinct:
  "distinct (map fst d) \<Longrightarrow> distinct (map fst (keepmin_setitem d k v))"
proof (induction d k v rule: keepmin_setitem.induct)
  case (1 key v)
  then show ?case by simp
next
  case (2 k old rest key v)
  then show ?case using keepmin_setitem_keys [of rest key v] by (auto simp: image_iff)
qed

definition add_shortened_map :: "PassVariant \<Rightarrow> (string \<rightharpoonup> PassVariant) \<Rightarrow> (string \<rightharpoonup> PassVariant)" where
  "add_shortened_map cur m =
     (let tmp = strip_keyboard_sequences_val (password cur)
      in if password cur \<noteq> tmp
         then keepmin_update m tmp \<lparr>password = tmp, entropy = entropy cur\<rparr> else m)"

lemma map_of_add_shortened: "map_of (add_shortened_val cur d) = add_shortened_map cur (map_of d)"
  by (simp add: add_shortened_val_def add_shortened_map_def Let_def map_of_keepmin_setitem)

lemma add_shortened_distinct: "distinct (map fst d) \<Longrightarrow> distinct (map fst (add_shortened_val cur d))"
  by (simp add: add_shortened_val_def Let_def keepmin_setitem_distinct)

lemma keepmin_update_commute:
  "keepmin_update (keepmin_update m k1 \<lparr>password = k1, entropy = e1\<rparr>) k2 \<lparr>password = k2, entropy = e2\<rparr>
   = keepmin_update (keepmin_update m k2 \<lparr>password = k2, entropy = e2\<rparr>) k1 \<lparr>password = k1, entropy = e1\<rparr>"
  by (rule ext) (auto simp: keepmin_update_def split: option.splits)

lemma add_shortened_map_commute:
  "add_shortened_map x \<circ> add_shortened_map y = add_shortened_map y \<circ> add_shortened_map x"
  by (rule ext) (simp add: add_shortened_map_def Let_def keepmin_update_commute)

lemma map_of_fold_add_shortened:
  "map_of (fold add_shortened_val vs d) = fold add_shortened_map vs (map_of d)"
  by (induction vs arbitrary: d) (simp_all add: map_of_add_shortened)

lemma fold_add_shortened_distinct:
  "distinct (map fst d) \<Longrightarrow> distinct (map fst (fold add_shortened_val vs d))"
  by (induction vs arbitrary: d) (simp_all add: add_shortened_distinct)

lemma find_keyboard_sequences_any_order:
  assumes "distinct (map fst d)" "mset vs = mset (dict_values d)"
  shows "set (fold add_shortened_val vs d) = set (find_keyboard_sequences_val d)"
proof -
  have "fold add_shortened_map vs = fold add_shortened_map (dict_values d)"
    by (rule fold_multiset_equiv [OF add_shortened_map_commute assms(2)])
  then have "map_of (fold add_shortened_val vs d) = map_of (find_keyboard_sequences_val d)"
    by (simp add: map_of_fold_add_shortened find_keyboard_sequences_val_def)
  then show ?thesis
    using map_of_inject_set [of "fold add_shortened_val vs d" "find_keyboard_sequences_val d"]
      fold_add_shortened_distinct [OF assms(1)]
    by (simp add: find_keyboard_sequences_val_def)
qed

lemma base_variants_distinct: "distinct (map fst (base_variants p))"
  by (simp add: base_variants_def Let_def keepmin_setitem_distinct)

subsection \<open>The aggregate, in the specification's words\<close>

text \<open>
  The variants are those of the collection after keyboard-sequence stripping, each with
  its adjustment after dictionary detection; the least variant entropy adds the
  closed-form NIST bits of the variant's string to each and takes the minimum.
\<close>

definition spec_variants :: "string list \<Rightarrow> string \<Rightarrow> PassVariant list" where
  "spec_variants dict_words p =
     map (spec_detect dict_words) (dict_values (find_keyboard_sequences_val (base_variants p)))"

definition spec_min_variant_entropy :: "string list \<Rightarrow> string \<Rightarrow> real" where
  "spec_min_variant_entropy dict_words p =
     Min (set (map (\<lambda>v. entropy v + spec_nist_bits (length (password v)))
                   (spec_variants dict_words p)))"

definition spec_raw_entropy :: "string \<Rightarrow> real" where
  "spec_raw_entropy p = spec_nist_repeat_bits p + 6"

lemma dict_values_map: "dict_values (map (\<lambda>(k, v). (k, g v)) d) = map g (dict_values d)"
  by (induction d) (auto simp: dict_values_def)

lemma add_NIST_num_bits_spec:
  "add_NIST_num_bits v = Inr (v\<lparr>entropy := entropy v + spec_nist_bits (length (password v))\<rparr>)"
  by (simp add: add_NIST_num_bits_def nist_closed_form)

lemma spec_variants_nonempty: "spec_variants ws p \<noteq> []"
  by (simp add: spec_variants_def dict_values_def find_keyboard_sequences_nonempty)

lemma entropy_of_normalized_spec:
  assumes "p \<noteq> []"
  shows "entropy_of_normalized ws p =
         Inr (min (spec_min_variant_entropy ws p) (spec_raw_entropy p)
              * (ln (real (spec_keyspace_size p)) / ln 26))"
proof -
  let ?bits = "\<lambda>v. v\<lparr>entropy := entropy v + spec_nist_bits (length (password v))\<rparr>"
  define D where "D = find_keyboard_sequences_val (base_variants p)"
  define D1 where "D1 = map (\<lambda>(k, v). (k, spec_detect ws v)) D"
  define D2 where "D2 = map (\<lambda>(k, v). (k, ?bits v)) D1"
  have a: "keyspace_multiplier p = Inr (ln (real (spec_keyspace_size p)) / ln 26)"
    using keyspace_multiplier_total [OF assms] by (simp add: keyspace_size_spec)
  have k: "find_keyboard_sequences (base_variants p) = Inr D"
    unfolding D_def by (rule find_keyboard_sequences_checked)
  have b: "find_dict_words ws D = Inr D1"
    unfolding D1_def by (rule find_dict_words_spec)
  have c: "for_each_value add_NIST_num_bits D1 = Inr D2"
    unfolding D2_def by (rule for_each_value_total) (rule add_NIST_num_bits_spec)
  have d: "map entropy (dict_values D2) =
           map (\<lambda>v. entropy v + spec_nist_bits (length (password v))) (spec_variants ws p)"
    unfolding D2_def D1_def D_def dict_values_map spec_variants_def by (simp add: comp_def)
  have e: "py_min (map entropy (dict_values D2)) = Inr (spec_min_variant_entropy ws p)"
    unfolding d spec_min_variant_entropy_def
    by (rule py_min_eq) (simp add: spec_variants_nonempty)
  have f: "get_NIST_num_bits p True = Inr (spec_nist_repeat_bits p)" by (rule nist_repeat_bits)
  have g: "(if spec_nist_repeat_bits p + 6 < spec_min_variant_entropy ws p
            then spec_nist_repeat_bits p + 6 else spec_min_variant_entropy ws p) =
           min (spec_min_variant_entropy ws p) (spec_raw_entropy p)"
    by (simp add: spec_raw_entropy_def min_def)
  show ?thesis
    unfolding entropy_of_normalized_def
    by (simp only: a k b c e f g sum.case Let_def)
qed

lemma spec_decay_pow_pos: "0 < (spec_decay ^^ n) 1"
  by (induction n) (simp_all add: spec_decay_def max_def)

lemma spec_nist_repeat_bits_nonneg: "0 \<le> spec_nist_repeat_bits s"
proof -
  have "0 \<le> spec_position_bits i (spec_multiplier s i)" for i
    using spec_decay_pow_pos [of "count_list (take i s) (s ! i)"]
    by (simp add: spec_position_bits_def spec_multiplier_def)
  then show ?thesis unfolding spec_nist_repeat_bits_def by (intro sum_nonneg) simp
qed

lemma spec_nist_bits_nonneg: "0 \<le> spec_nist_bits n"
  by (simp add: spec_nist_bits_def)

lemma spec_detect_nonneg: "0 \<le> entropy v \<Longrightarrow> 0 \<le> entropy (spec_detect ws v)"
  by (simp add: spec_detect_def)

lemma spec_variants_nonneg: "v \<in> set (spec_variants ws p) \<Longrightarrow> 0 \<le> entropy v"
  using find_keyboard_sequences_nonneg [of _ p] spec_detect_nonneg
  by (auto simp: spec_variants_def)

lemma spec_min_variant_entropy_nonneg: "0 \<le> spec_min_variant_entropy ws p"
proof -
  let ?S = "set (map (\<lambda>v. entropy v + spec_nist_bits (length (password v))) (spec_variants ws p))"
  have "finite ?S" "?S \<noteq> {}" using spec_variants_nonempty [of ws p] by simp_all
  moreover have "\<forall>x \<in> ?S. 0 \<le> x"
    using spec_variants_nonneg [of _ ws p] spec_nist_bits_nonneg by (auto intro: add_nonneg_nonneg)
  ultimately show ?thesis unfolding spec_min_variant_entropy_def by (simp add: Min_ge_iff)
qed

lemma entropy_of_normalized_nonneg:
  assumes "p \<noteq> []"
  shows "\<exists>r. entropy_of_normalized ws p = Inr r \<and> 0 \<le> r"
proof -
  have "0 \<le> min (spec_min_variant_entropy ws p) (spec_raw_entropy p)"
    using spec_min_variant_entropy_nonneg [of ws p] spec_nist_repeat_bits_nonneg [of p]
    by (simp add: spec_raw_entropy_def)
  moreover have "0 \<le> ln (real (spec_keyspace_size p)) / ln 26"
    using keyspace_multiplier_nonneg [OF assms] by (simp add: keyspace_size_spec)
  ultimately have "0 \<le> min (spec_min_variant_entropy ws p) (spec_raw_entropy p)
                       * (ln (real (spec_keyspace_size p)) / ln 26)"
    by (rule mult_nonneg_nonneg)
  then show ?thesis
    using entropy_of_normalized_spec [OF assms, of ws] by blast
qed

lemma get_entropy_bits_nonneg: "\<exists>r. get_entropy_bits ws p = Inr r \<and> 0 \<le> r"
  using entropy_of_normalized_nonneg [OF handle_license_plates_nonempty, of p ws]
  by (simp add: get_entropy_bits_def)

section \<open>Passwords evaluated\<close>

text \<open>
  The password \<open>ab\<close>: a string of 2 characters holds no keyboard sequence, the variants
  are \<open>ab\<close> (0) and \<open>ba\<close> (1), neither is 3 long so there is no dictionary bonus, the NIST bits of a string
  of length 2 are 6, the raw entropy is 12 and the key space is 26: 6 bits, whatever the
  word list.
\<close>

lemma remove_sequence_short: "length s \<le> 2 \<Longrightarrow> remove_sequence_val s k = s"
proof -
  assume s: "length s \<le> 2"
  obtain start lcs where r: "longest_common_substring_val s k = (start, lcs)"
    by (cases "longest_common_substring_val s k")
  have "nat start + length lcs \<le> length s" by (rule lcs_bounds(2) [OF r])
  then have "length (snd (longest_common_substring_val s k)) \<le> 2" using s r by simp
  then show ?thesis by (rule remove_sequence_no_match)
qed

lemma strip_keyboard_sequences_short:
  "length s \<le> 2 \<Longrightarrow> strip_keyboard_sequences_val s = s"
proof -
  assume s: "length s \<le> 2"
  have "fold (\<lambda>keyboard_seq tmp_pass. remove_sequence_val tmp_pass keyboard_seq) ks s = s" for ks
    by (induction ks) (simp_all add: remove_sequence_short [OF s])
  then show ?thesis by (simp add: strip_keyboard_sequences_val_def)
qed

lemma variants_ab:
  "find_keyboard_sequences_val (base_variants ''ab'') =
   [(''ab'', \<lparr>password = ''ab'', entropy = 0\<rparr>), (''ba'', \<lparr>password = ''ba'', entropy = 1\<rparr>)]"
  by (simp add: find_keyboard_sequences_val_def add_shortened_val_def base_variants_def dict_values_def lower_pass_def rev_pass_def reverse_password_def
      reverse_string_def leetspeak_pass_def leetspeak_pass2_def translate_def leetspeakmap_apply
      leetspeakmap2_apply py_lower_def char_is_upper_def ord_def Let_def
      strip_keyboard_sequences_short)

lemma entropy_ab: "get_entropy_bits ws ''ab'' = Inr 6"
  by (simp add: get_entropy_bits_def handle_license_plates_def entropy_of_normalized_def
     find_keyboard_sequences_checked variants_ab find_dict_words_def find_dict_word_def
     clean_password_def minwordlen_def
     add_NIST_num_bits_def get_NIST_num_bits_def py_get_def ord_def dict_values_def
     keyspace_multiplier_def keyspace_size_def math_log_def)

text \<open>
  With the word list \<open>[dragon]\<close>: the password \<open>dragon\<close> is a word of 6 letters, so its
  first variant gets no bonus and scores the 14 NIST bits of a string of length 6, while
  \<open>xqpjfl\<close>, of the same length and classes, gets the bonus and scores 20.
\<close>

lemma variants_dragon:
  "find_dict_words [''dragon''] (find_keyboard_sequences_val (base_variants ''dragon'')) =
   Inr [(''dragon'', \<lparr>password = ''dragon'', entropy = 0\<rparr>),
        (''nogard'', \<lparr>password = ''nogard'', entropy = 7\<rparr>)]"
  by code_simp

lemma bits_dragon:
  "for_each_value add_NIST_num_bits
     [(''dragon'', \<lparr>password = ''dragon'', entropy = 0\<rparr>),
      (''nogard'', \<lparr>password = ''nogard'', entropy = 7\<rparr>)] =
   Inr [(''dragon'', \<lparr>password = ''dragon'', entropy = 14\<rparr>),
        (''nogard'', \<lparr>password = ''nogard'', entropy = 21\<rparr>)]"
  by code_simp

lemma raw_dragon: "get_NIST_num_bits ''dragon'' True = Inr 14"
  by code_simp

lemma keyspace_dragon: "keyspace_size ''dragon'' = 26"
  by code_simp

lemma plate_dragon: "handle_license_plates ''dragon'' = ''dragon''"
  by code_simp

lemma entropy_dragon: "get_entropy_bits [''dragon''] ''dragon'' = Inr 14"
proof -
  have m: "keyspace_multiplier ''dragon'' = Inr 1"
    by (simp add: keyspace_multiplier_def keyspace_dragon math_log_def)
  have "entropy_of_normalized [''dragon''] ''dragon'' = Inr 14"
    unfolding entropy_of_normalized_def m find_keyboard_sequences_checked sum.case
      variants_dragon bits_dragon raw_dragon
    by (simp add: dict_values_def)
  then show ?thesis by (simp add: get_entropy_bits_def plate_dragon)
qed

lemma variants_xqpjfl:
  "find_dict_words [''dragon''] (find_keyboard_sequences_val (base_variants ''xqpjfl'')) =
   Inr [(''xqpjfl'', \<lparr>password = ''xqpjfl'', entropy = 6\<rparr>),
        (''lfjpqx'', \<lparr>password = ''lfjpqx'', entropy = 7\<rparr>)]"
  by code_simp

lemma bits_xqpjfl:
  "for_each_value add_NIST_num_bits
     [(''xqpjfl'', \<lparr>password = ''xqpjfl'', entropy = 6\<rparr>),
      (''lfjpqx'', \<lparr>password = ''lfjpqx'', entropy = 7\<rparr>)] =
   Inr [(''xqpjfl'', \<lparr>password = ''xqpjfl'', entropy = 20\<rparr>),
        (''lfjpqx'', \<lparr>password = ''lfjpqx'', entropy = 21\<rparr>)]"
  by code_simp

lemma raw_xqpjfl: "get_NIST_num_bits ''xqpjfl'' True = Inr 14"
  by code_simp

lemma keyspace_xqpjfl: "keyspace_size ''xqpjfl'' = 26"
  by code_simp

lemma plate_xqpjfl: "handle_license_plates ''xqpjfl'' = ''xqpjfl''"
  by code_simp

lemma entropy_xqpjfl: "get_entropy_bits [''dragon''] ''xqpjfl'' = Inr 20"
proof -
  have m: "keyspace_multiplier ''xqpjfl'' = Inr 1"
    by (simp add: keyspace_multiplier_def keyspace_xqpjfl math_log_def)
  have "entropy_of_normalized [''dragon''] ''xqpjfl'' = Inr 20"
    unfolding entropy_of_normalized_def m find_keyboard_sequences_checked sum.case
      variants_xqpjfl bits_xqpjfl raw_xqpjfl
    by (simp add: dict_values_def)
  then show ?thesis by (simp add: get_entropy_bits_def plate_xqpjfl)
qed

text \<open>
  The password \<open>qwertyuiop\<close> is a run of the first keyboard sequence: its shortened
  variant is the two null bytes, with no bonus, and scores the 6 NIST bits of a string of
  length 2.
\<close>

lemma variants_qwertyuiop:
  "find_dict_words [] (find_keyboard_sequences_val (base_variants ''qwertyuiop'')) =
   Inr [(''qwertyuiop'', \<lparr>password = ''qwertyuiop'', entropy = 6\<rparr>),
        (''poiuytrewq'', \<lparr>password = ''poiuytrewq'', entropy = 7\<rparr>),
        ([CHR 0x00, CHR 0x00], \<lparr>password = [CHR 0x00, CHR 0x00], entropy = 0\<rparr>)]"
  by code_simp

lemma bits_qwertyuiop:
  "for_each_value add_NIST_num_bits
     [(''qwertyuiop'', \<lparr>password = ''qwertyuiop'', entropy = 6\<rparr>),
      (''poiuytrewq'', \<lparr>password = ''poiuytrewq'', entropy = 7\<rparr>),
      ([CHR 0x00, CHR 0x00], \<lparr>password = [CHR 0x00, CHR 0x00], entropy = 0\<rparr>)] =
   Inr [(''qwertyuiop'', \<lparr>password = ''qwertyuiop'', entropy = 27\<rparr>),
        (''poiuytrewq'', \<lparr>password = ''poiuytrewq'', entropy = 28\<rparr>),
        ([CHR 0x00, CHR 0x00], \<lparr>password = [CHR 0x00, CHR 0x00], entropy = 6\<rparr>)]"
  by code_simp

lemma raw_qwertyuiop: "get_NIST_num_bits ''qwertyuiop'' True = Inr 21"
  by code_simp

lemma keyspace_qwertyuiop: "keyspace_size ''qwertyuiop'' = 26"
  by code_simp

lemma plate_qwertyuiop: "handle_license_plates ''qwertyuiop'' = ''qwertyuiop''"
  by code_simp

lemma entropy_qwertyuiop: "get_entropy_bits [] ''qwertyuiop'' = Inr 6"
proof -
  have m: "keyspace_multiplier ''qwertyuiop'' = Inr 1"
    by (simp add: keyspace_multiplier_def keyspace_qwertyuiop math_log_def)
  have "entropy_of_normalized [] ''qwertyuiop'' = Inr 6"
    unfolding entropy_of_normalized_def m find_keyboard_sequences_checked sum.case
      variants_qwertyuiop bits_qwertyuiop raw_qwertyuiop
    by (simp add: dict_values_def)
  then show ?thesis by (simp add: get_entropy_bits_def plate_qwertyuiop)
qed

text \<open>
  With the empty word list: \<open>12-AB-34\<close> is scored from its 8 characters (the second \<open>-\<close>
  counts 1.5 in the repetition-aware bits, which gives 17.5 + 6), and \<open>12AB34\<close> from
  its 6.
\<close>

lemma variants_plate_upper:
  "find_dict_words [] (find_keyboard_sequences_val (base_variants ''12-AB-34'')) =
   Inr [(''12-ab-34'', \<lparr>password = ''12-ab-34'', entropy = 6\<rparr>),
        (''43-ba-21'', \<lparr>password = ''43-ba-21'', entropy = 7\<rparr>),
        (''iz-ab-ea'', \<lparr>password = ''iz-ab-ea'', entropy = 7\<rparr>),
        (''lz-ab-ea'', \<lparr>password = ''lz-ab-ea'', entropy = 7\<rparr>)]"
  by code_simp

lemma bits_plate_upper:
  "for_each_value add_NIST_num_bits
     [(''12-ab-34'', \<lparr>password = ''12-ab-34'', entropy = 6\<rparr>),
      (''43-ba-21'', \<lparr>password = ''43-ba-21'', entropy = 7\<rparr>),
      (''iz-ab-ea'', \<lparr>password = ''iz-ab-ea'', entropy = 7\<rparr>),
      (''lz-ab-ea'', \<lparr>password = ''lz-ab-ea'', entropy = 7\<rparr>)] =
   Inr [(''12-ab-34'', \<lparr>password = ''12-ab-34'', entropy = 24\<rparr>),
        (''43-ba-21'', \<lparr>password = ''43-ba-21'', entropy = 25\<rparr>),
        (''iz-ab-ea'', \<lparr>password = ''iz-ab-ea'', entropy = 25\<rparr>),
        (''lz-ab-ea'', \<lparr>password = ''lz-ab-ea'', entropy = 25\<rparr>)]"
  by code_simp

lemma raw_plate_upper: "get_NIST_num_bits ''12-AB-34'' True = Inr (35 / 2)"
  by code_simp

lemma keyspace_plate_upper: "keyspace_size ''12-AB-34'' = 68"
  by code_simp

lemma plate_upper: "handle_license_plates ''12-AB-34'' = ''12-AB-34''"
  by code_simp

lemma entropy_plate_upper: "get_entropy_bits [] ''12-AB-34'' = Inr (47 / 2 * (ln 68 / ln 26))"
proof -
  have m: "keyspace_multiplier ''12-AB-34'' = Inr (ln 68 / ln 26)"
    by (simp add: keyspace_multiplier_def keyspace_plate_upper math_log_def)
  have "entropy_of_normalized [] ''12-AB-34'' = Inr (47 / 2 * (ln 68 / ln 26))"
    unfolding entropy_of_normalized_def m find_keyboard_sequences_checked sum.case
      variants_plate_upper bits_plate_upper raw_plate_upper
    by (simp add: dict_values_def)
  then show ?thesis by (simp add: get_entropy_bits_def plate_upper)
qed

lemma variants_plate_bare:
  "find_dict_words [] (find_keyboard_sequences_val (base_variants ''12AB34'')) =
   Inr [(''12ab34'', \<lparr>password = ''12ab34'', entropy = 6\<rparr>),
        (''43ba21'', \<lparr>password = ''43ba21'', entropy = 7\<rparr>),
        (''izabea'', \<lparr>password = ''izabea'', entropy = 7\<rparr>),
        (''lzabea'', \<lparr>password = ''lzabea'', entropy = 7\<rparr>)]"
  by code_simp

lemma bits_plate_bare:
  "for_each_value add_NIST_num_bits
     [(''12ab34'', \<lparr>password = ''12ab34'', entropy = 6\<rparr>),
      (''43ba21'', \<lparr>password = ''43ba21'', entropy = 7\<rparr>),
      (''izabea'', \<lparr>password = ''izabea'', entropy = 7\<rparr>),
      (''lzabea'', \<lparr>password = ''lzabea'', entropy = 7\<rparr>)] =
   Inr [(''12ab34'', \<lparr>password = ''12ab34'', entropy = 20\<rparr>),
        (''43ba21'', \<lparr>password = ''43ba21'', entropy = 21\<rparr>),
        (''izabea'', \<lparr>password = ''izabea'', entropy = 21\<rparr>),
        (''lzabea'', \<lparr>password = ''lzabea'', entropy = 21\<rparr>)]"
  by code_simp

lemma raw_plate_bare: "get_NIST_num_bits ''12AB34'' True = Inr 14"
  by code_simp

lemma keyspace_plate_bare: "keyspace_size ''12AB34'' = 36"
  by code_simp

lemma plate_bare: "handle_license_plates ''12AB34'' = ''12AB34''"
  by code_simp

lemma entropy_plate_bare: "get_entropy_bits [] ''12AB34'' = Inr (20 * (ln 36 / ln 26))"
proof -
  have m: "keyspace_multiplier ''12AB34'' = Inr (ln 36 / ln 26)"
    by (simp add: keyspace_multiplier_def keyspace_plate_bare math_log_def)
  have "entropy_of_normalized [] ''12AB34'' = Inr (20 * (ln 36 / ln 26))"
    unfolding entropy_of_normalized_def m find_keyboard_sequences_checked sum.case
      variants_plate_bare bits_plate_bare raw_plate_bare
    by (simp add: dict_values_def)
  then show ?thesis by (simp add: get_entropy_bits_def plate_bare)
qed

lemma entropy_plate_differ: "(20 :: real) * (ln 36 / ln 26) < 47 / 2 * (ln 68 / ln 26)"
proof -
  have a: "(0 :: real) < ln 36" "(0 :: real) < ln 26" by simp_all
  have b: "ln (36 :: real) < ln 68" by simp
  have c: "20 * ln (36 :: real) < 47 / 2 * ln 68"
    using a b by (intro mult_strict_mono) simp_all
  have "20 * ln (36 :: real) / ln 26 < 47 / 2 * ln 68 / ln 26"
    by (rule divide_strict_right_mono [OF c a(2)])
  then show ?thesis by simp
qed

section \<open>The interpreter's recursion limit\<close>

text \<open>
  CPython raises \<^verbatim>\<open>RuntimeError\<close> (maximum recursion depth exceeded) when a call would nest
  deeper than \<^verbatim>\<open>sys.getrecursionlimit()\<close>, which is 1000 unless the program changes it.
  In this section \<open>frames\<close> is the number of calls of Python functions that may still be
  nested at the point of a call: a call with \<open>frames = 0\<close> raises, and a function entered
  with \<open>Suc frames\<close> leaves \<open>frames\<close> to the functions it calls.

  \<^verbatim>\<open>remove_sequence\<close> calls \<^verbatim>\<open>longest_common_substring\<close> and twice itself, each one frame
  further down, so what it needs grows with the number of keyboard runs in the string.
  Every other function that \<^verbatim>\<open>get_entropy_bits\<close> calls nests two frames at most, and
  \<^verbatim>\<open>remove_sequence\<close>, which is called for every password that reaches the variants,
  needs two as well; so the count is carried through \<^verbatim>\<open>remove_sequence\<close> and
  \<^verbatim>\<open>longest_common_substring\<close> only. The functions below are those of the sections
  above with the count added; \<open>get_entropy_bits_limited frames\<close> is \<^verbatim>\<open>get_entropy_bits\<close>
  called when its body may still nest \<open>frames\<close> calls.
\<close>

definition longest_common_substring_limited :: "nat \<Rightarrow> string \<Rightarrow> string \<Rightarrow> error + int \<times> string" where
  "longest_common_substring_limited frames s1 s2 =
     (if frames = 0 then Inl RuntimeError else longest_common_substring s1 s2)"

fun remove_sequence_limited :: "nat \<Rightarrow> string \<Rightarrow> string \<Rightarrow> error + string" where
  "remove_sequence_limited 0 str keyboard_seq = Inl RuntimeError"
| "remove_sequence_limited (Suc frames) str keyboard_seq =
     (case longest_common_substring_limited frames str keyboard_seq of
        Inl e \<Rightarrow> Inl e
      | Inr (start, lcs) \<Rightarrow>
          if length lcs > 2 then
            (case remove_sequence_limited frames (py_slice_to str start) keyboard_seq of
               Inl e \<Rightarrow> Inl e
             | Inr left \<Rightarrow>
                 (case remove_sequence_limited frames
                         (py_slice_from str (start + int (length lcs))) keyboard_seq of
                    Inl e \<Rightarrow> Inl e
                  | Inr right \<Rightarrow> Inr (left @ [CHR 0x00, CHR 0x00] @ right)))
          else Inr str)"

fun strip_keyboard_sequences_loop_limited :: "nat \<Rightarrow> string list \<Rightarrow> string \<Rightarrow> error + string" where
  "strip_keyboard_sequences_loop_limited frames [] tmp_pass = Inr tmp_pass"
| "strip_keyboard_sequences_loop_limited frames (keyboard_seq # rest) tmp_pass =
     (case remove_sequence_limited frames tmp_pass keyboard_seq of
        Inl e \<Rightarrow> Inl e
      | Inr tmp_pass' \<Rightarrow> strip_keyboard_sequences_loop_limited frames rest tmp_pass')"

definition strip_keyboard_sequences_limited :: "nat \<Rightarrow> string \<Rightarrow> error + string" where
  "strip_keyboard_sequences_limited frames tmp_pass =
     strip_keyboard_sequences_loop_limited frames KEYBOARD_SEQUENCES tmp_pass"

definition add_shortened_limited :: "nat \<Rightarrow> PassVariant \<Rightarrow> KeepMinDict \<Rightarrow> error + KeepMinDict" where
  "add_shortened_limited frames cur_pass passwords_variants =
     (case strip_keyboard_sequences_limited frames (password cur_pass) of
        Inl e \<Rightarrow> Inl e
      | Inr tmp_pass \<Rightarrow>
          if password cur_pass \<noteq> tmp_pass
          then Inr (keepmin_setitem passwords_variants tmp_pass
                      \<lparr>password = tmp_pass, entropy = entropy cur_pass\<rparr>)
          else Inr passwords_variants)"

fun find_keyboard_sequences_loop_limited ::
  "nat \<Rightarrow> PassVariant list \<Rightarrow> KeepMinDict \<Rightarrow> error + KeepMinDict" where
  "find_keyboard_sequences_loop_limited frames [] passwords_variants = Inr passwords_variants"
| "find_keyboard_sequences_loop_limited frames (cur_pass # rest) passwords_variants =
     (case add_shortened_limited frames cur_pass passwords_variants of
        Inl e \<Rightarrow> Inl e
      | Inr passwords_variants' \<Rightarrow>
          find_keyboard_sequences_loop_limited frames rest passwords_variants')"

definition find_keyboard_sequences_limited :: "nat \<Rightarrow> KeepMinDict \<Rightarrow> error + KeepMinDict" where
  "find_keyboard_sequences_limited frames passwords_variants =
     find_keyboard_sequences_loop_limited frames (dict_values passwords_variants)
       passwords_variants"

definition entropy_of_normalized_limited :: "nat \<Rightarrow> string list \<Rightarrow> string \<Rightarrow> error + real" where
  "entropy_of_normalized_limited frames dict_words orig_pass =
     (case keyspace_multiplier orig_pass of
        Inl e \<Rightarrow> Inl e
      | Inr multiplier \<Rightarrow>
     (case find_keyboard_sequences_limited frames (base_variants orig_pass) of
        Inl e \<Rightarrow> Inl e
      | Inr with_shortened \<Rightarrow>
     (case find_dict_words dict_words with_shortened of
        Inl e \<Rightarrow> Inl e
      | Inr with_bonus \<Rightarrow>
     (case for_each_value add_NIST_num_bits with_bonus of
        Inl e \<Rightarrow> Inl e
      | Inr with_bits \<Rightarrow>
     (case py_min (map entropy (dict_values with_bits)) of
        Inl e \<Rightarrow> Inl e
      | Inr min_entropy \<Rightarrow>
     (case get_NIST_num_bits orig_pass True of
        Inl e \<Rightarrow> Inl e
      | Inr bits \<Rightarrow>
          (let orig_pass_entropy = bits + 6;
               min_entropy' = (if orig_pass_entropy < min_entropy then orig_pass_entropy
                               else min_entropy)
           in Inr (min_entropy' * multiplier))))))))"

definition get_entropy_bits_limited :: "nat \<Rightarrow> string list \<Rightarrow> string \<Rightarrow> error + real" where
  "get_entropy_bits_limited frames dict_words orig_pass =
     (if orig_pass = [] then Inr 0
      else if card (set orig_pass) = 1 then Inr 6
      else entropy_of_normalized_limited frames dict_words (handle_license_plates orig_pass))"

subsection \<open>The only new failure is the limit\<close>

text \<open>
  With the count, a function either raises \<^verbatim>\<open>RuntimeError\<close> or returns what it returns
  without it; and it returns when the frames left exceed the length of the string by 2.
\<close>

lemma longest_common_substring_limited_Suc:
  "longest_common_substring_limited (Suc frames) s1 s2 = Inr (longest_common_substring_val s1 s2)"
  by (simp add: longest_common_substring_limited_def longest_common_substring_checked)

lemma remove_sequence_limited_one:
  "frames \<le> 1 \<Longrightarrow> remove_sequence_limited frames s k = Inl RuntimeError"
  by (cases frames) (simp_all add: longest_common_substring_limited_def)

declare remove_sequence_limited.simps [simp del]

lemma remove_sequence_limited_no_match:
  "length (snd (longest_common_substring_val s k)) \<le> 2 \<Longrightarrow>
   remove_sequence_limited (Suc (Suc frames)) s k = Inr s"
  by (cases "longest_common_substring_val s k")
     (simp add: remove_sequence_limited.simps longest_common_substring_limited_Suc)

lemma remove_sequence_limited_match:
  assumes "longest_common_substring_val s k = (start, lcs)" "2 < length lcs"
  shows "remove_sequence_limited (Suc (Suc frames)) s k =
         (case remove_sequence_limited (Suc frames) (take (nat start) s) k of
            Inl e \<Rightarrow> Inl e
          | Inr left \<Rightarrow>
              (case remove_sequence_limited (Suc frames) (drop (nat start + length lcs) s) k of
                 Inl e \<Rightarrow> Inl e
               | Inr right \<Rightarrow> Inr (left @ [CHR 0x00, CHR 0x00] @ right)))"
proof -
  note b = lcs_bounds [OF assms(1)]
  have sl: "py_slice_to s start = take (nat start) s"
    using b by (simp add: py_slice_to_def slice_bound_def)
  have sr: "py_slice_from s (start + int (length lcs)) = drop (nat start + length lcs) s"
    using b by (simp add: py_slice_from_def slice_bound_def nat_add_distrib)
  show ?thesis
    using assms(2)
    by (simp add: remove_sequence_limited.simps longest_common_substring_limited_Suc assms(1)
        sl sr cong: sum.case_cong)
qed

lemma remove_sequence_limited_cases:
  "remove_sequence_limited frames s k = Inl RuntimeError \<or>
   remove_sequence_limited frames s k = Inr (remove_sequence_val s k)"
proof (induction frames arbitrary: s)
  case 0
  show ?case by (simp add: remove_sequence_limited.simps)
next
  case (Suc frames)
  show ?case
  proof (cases frames)
    case 0
    then have "remove_sequence_limited (Suc frames) s k = Inl RuntimeError"
      by (intro remove_sequence_limited_one) simp
    then show ?thesis by simp
  next
    case f: (Suc f)
    obtain start lcs where r: "longest_common_substring_val s k = (start, lcs)"
      by (cases "longest_common_substring_val s k")
    show ?thesis
    proof (cases "2 < length lcs")
      case False
      then have "length (snd (longest_common_substring_val s k)) \<le> 2" using r by simp
      then show ?thesis
        unfolding f by (simp add: remove_sequence_limited_no_match remove_sequence_no_match)
    next
      case True
      show ?thesis
        using Suc.IH [of "take (nat start) s"] Suc.IH [of "drop (nat start + length lcs) s"]
        unfolding f remove_sequence_limited_match [OF r True] remove_sequence_match [OF r True]
        by auto
    qed
  qed
qed

lemma remove_sequence_limited_enough:
  "length s + 2 \<le> frames \<Longrightarrow>
   remove_sequence_limited frames s k = Inr (remove_sequence_val s k)"
proof (induction frames arbitrary: s)
  case 0
  then show ?case by simp
next
  case (Suc frames)
  then obtain f where f: "frames = Suc f" by (cases frames) simp_all
  obtain start lcs where r: "longest_common_substring_val s k = (start, lcs)"
    by (cases "longest_common_substring_val s k")
  show ?case
  proof (cases "2 < length lcs")
    case False
    then have "length (snd (longest_common_substring_val s k)) \<le> 2" using r by simp
    then show ?thesis
      unfolding f by (simp add: remove_sequence_limited_no_match remove_sequence_no_match)
  next
    case True
    note b = lcs_bounds [OF r]
    have l: "length (take (nat start) s) + 2 \<le> frames"
      using Suc.prems b(2) True by simp
    have d: "length (drop (nat start + length lcs) s) + 2 \<le> frames"
      using Suc.prems b(2) True by simp
    show ?thesis
      using Suc.IH [OF l] Suc.IH [OF d]
      unfolding f remove_sequence_limited_match [OF r True] remove_sequence_match [OF r True]
      by simp
  qed
qed

subsection \<open>A password of many keyboard runs\<close>

text \<open>
  \<open>keyboard_runs n\<close> is \<^verbatim>\<open>'abc ' * n\<close>. Its characters are \<open>a\<close>, \<open>b\<close>, \<open>c\<close> and the space: no
  two of them are adjacent in any of the first six keyboard sequences, so these leave
  the string as it is, and against \<^verbatim>\<open>abcdefgh\<close> the longest common substring is the first
  \<open>abc\<close>. Removing it leaves the empty string (or one space) before it and the remaining
  runs after it, one frame further down.
\<close>

definition keyboard_runs :: "nat \<Rightarrow> string" where
  "keyboard_runs n = concat (replicate n ''abc '')"

lemma keyboard_runs_Suc: "keyboard_runs (Suc n) = ''abc '' @ keyboard_runs n"
  by (simp add: keyboard_runs_def)

lemma keyboard_runs_set: "set (keyboard_runs n) \<subseteq> set ''abc ''"
  by (induction n) (auto simp: keyboard_runs_def)

lemma sublist_nth: "sublist w k \<Longrightarrow> i < length w \<Longrightarrow> w ! i \<in> set (drop i k)"
proof -
  assume s: "sublist w k" and i: "i < length w"
  obtain ps ss where k: "k = ps @ w @ ss" using s by (auto simp: sublist_def)
  have "w ! i \<in> set (drop i w)" using i by (metis Cons_nth_drop_Suc list.set_intros(1))
  also have "\<dots> \<subseteq> set (drop i (w @ ss))" by simp
  also have "\<dots> \<subseteq> set (drop (i - length ps) (w @ ss))"
    by (rule set_drop_subset_set_drop) simp
  also have "\<dots> \<subseteq> set (drop i k)" unfolding k by simp
  finally show ?thesis .
qed

lemma sublist_adjacent: "sublist (c1 # c2 # w) k \<Longrightarrow> (c1, c2) \<in> set (zip k (tl k))"
proof (induction k)
  case Nil
  then show ?case by simp
next
  case (Cons a k)
  from Cons.prems have "prefix (c1 # c2 # w) (a # k) \<or> sublist (c1 # c2 # w) k"
    by (simp add: sublist_Cons_right)
  then show ?case
  proof
    assume "prefix (c1 # c2 # w) (a # k)"
    then show ?thesis by (cases k) (auto simp: prefix_def)
  next
    assume "sublist (c1 # c2 # w) k"
    then have "(c1, c2) \<in> set (zip k (tl k))" by (rule Cons.IH)
    then show ?thesis by (cases k) auto
  qed
qed

lemma lcs_runs_first_rows:
  assumes k: "k \<in> set (take 6 KEYBOARD_SEQUENCES)" and x: "set x \<subseteq> set ''abc ''"
  shows "length (snd (longest_common_substring_val x k)) \<le> 2"
proof (rule ccontr)
  let ?w = "snd (longest_common_substring_val x k)"
  assume "\<not> length ?w \<le> 2"
  then obtain c1 c2 w where w: "?w = c1 # c2 # w"
    by (cases ?w; cases "tl ?w") auto
  have "sublist ?w x" by (rule lcs_sublist_left)
  then have "set ?w \<subseteq> set ''abc ''" using x set_mono_sublist by blast
  then have c: "c1 \<in> set ''abc ''" "c2 \<in> set ''abc ''" unfolding w by simp_all
  have "sublist (c1 # c2 # w) k" using lcs_sublist_right [of x k] unfolding w .
  then have "(c1, c2) \<in> set (zip k (tl k))" by (rule sublist_adjacent)
  then show False using k c by (auto simp: KEYBOARD_SEQUENCES_def)
qed

lemma lcs_runs_abcdefgh:
  assumes x: "set x \<subseteq> set ''abc ''"
  shows "length (snd (longest_common_substring_val x ''abcdefgh'')) \<le> 3"
proof (rule ccontr)
  let ?w = "snd (longest_common_substring_val x ''abcdefgh'')"
  assume "\<not> length ?w \<le> 3"
  then have l: "3 < length ?w" by simp
  have "sublist ?w x" by (rule lcs_sublist_left)
  then have "set ?w \<subseteq> set ''abc ''" using x set_mono_sublist by blast
  then have c: "?w ! 3 \<in> set ''abc ''" using l nth_mem by blast
  have "?w ! 3 \<in> set (drop 3 ''abcdefgh'')"
    by (rule sublist_nth [OF lcs_sublist_right l])
  then show False using c by auto
qed

lemma lcs_runs_length:
  assumes x: "set x \<subseteq> set ''abc ''" and s: "sublist ''abc'' x"
  shows "length (snd (longest_common_substring_val x ''abcdefgh'')) = 3"
proof -
  have "sublist ''abc'' ''abcdefgh''" by (simp add: sublist_Cons_right)
  then have "length ''abc'' \<le> length (snd (longest_common_substring_val x ''abcdefgh''))"
    using s by (intro lcs_maximal)
  then show ?thesis using lcs_runs_abcdefgh [OF x] by simp
qed

lemma lcs_runs_head:
  assumes x: "set rest \<subseteq> set ''abc ''"
  shows "longest_common_substring_val (''abc'' @ rest) ''abcdefgh'' = (0, ''abc'')"
proof -
  obtain start lcs where r: "longest_common_substring_val (''abc'' @ rest) ''abcdefgh'' = (start, lcs)"
    by (cases "longest_common_substring_val (''abc'' @ rest) ''abcdefgh''")
  have "set (''abc'' @ rest) \<subseteq> set ''abc ''" using x by auto
  moreover have "sublist ''abc'' (''abc'' @ rest)"
    unfolding sublist_def by (intro exI [of _ "[]"] exI [of _ rest]) simp
  ultimately have len: "length lcs = 3" using lcs_runs_length [of "''abc'' @ rest"] r by simp
  note b = lcs_bounds [OF r]
  have "\<not> 0 < nat start"
  proof
    assume "0 < nat start"
    then have "\<not> sublist (take (length lcs) (drop 0 (''abc'' @ rest))) ''abcdefgh''"
      by (rule lcs_leftmost [OF r])
    then show False by (simp add: len sublist_Cons_right)
  qed
  then have st: "start = 0" using b(1) by simp
  show ?thesis using b(3) r by (simp add: st len)
qed

lemma lcs_runs_spaced:
  assumes x: "set rest \<subseteq> set ''abc ''"
  shows "longest_common_substring_val ('' abc'' @ rest) ''abcdefgh'' = (1, ''abc'')"
proof -
  obtain start lcs where r: "longest_common_substring_val ('' abc'' @ rest) ''abcdefgh'' = (start, lcs)"
    by (cases "longest_common_substring_val ('' abc'' @ rest) ''abcdefgh''")
  have "set ('' abc'' @ rest) \<subseteq> set ''abc ''" using x by auto
  moreover have "sublist ''abc'' ('' abc'' @ rest)"
    unfolding sublist_def by (intro exI [of _ "'' ''"] exI [of _ rest]) simp
  ultimately have len: "length lcs = 3" using lcs_runs_length [of "'' abc'' @ rest"] r by simp
  note b = lcs_bounds [OF r]
  have "\<not> 1 < nat start"
  proof
    assume "1 < nat start"
    then have "\<not> sublist (take (length lcs) (drop 1 ('' abc'' @ rest))) ''abcdefgh''"
      by (rule lcs_leftmost [OF r])
    then show False by (simp add: len sublist_Cons_right)
  qed
  moreover have "nat start \<noteq> 0"
  proof
    assume "nat start = 0"
    then have "lcs = '' ab''" using b(3) by (simp add: len)
    moreover have "sublist lcs ''abcdefgh''" using lcs_sublist_right [of "'' abc'' @ rest" "''abcdefgh''"] r by simp
    ultimately show False by (simp add: sublist_Cons_right)
  qed
  ultimately have st: "start = 1" using b(1) by simp
  show ?thesis using b(3) r by (simp add: st len)
qed

lemma remove_sequence_limited_spaced:
  "frames \<le> Suc m \<Longrightarrow>
   remove_sequence_limited frames ('' '' @ keyboard_runs m) ''abcdefgh'' = Inl RuntimeError"
proof (induction m arbitrary: frames)
  case 0
  then show ?case by (intro remove_sequence_limited_one) simp
next
  case (Suc m)
  show ?case
  proof (cases "frames \<le> 1")
    case True
    then show ?thesis by (rule remove_sequence_limited_one)
  next
    case False
    then obtain f where f: "frames = Suc (Suc f)" by (cases frames; cases "frames - 1") auto
    have r: "longest_common_substring_val ('' '' @ keyboard_runs (Suc m)) ''abcdefgh'' = (1, ''abc'')"
      using lcs_runs_spaced [of "'' '' @ keyboard_runs m"] keyboard_runs_set [of m]
      by (simp add: keyboard_runs_Suc)
    have right: "remove_sequence_limited (Suc f) ('' '' @ keyboard_runs m) ''abcdefgh'' = Inl RuntimeError"
      using Suc.prems f by (intro Suc.IH) simp
    show ?thesis
      unfolding f
      using remove_sequence_limited_match [OF r, of f] right
        remove_sequence_limited_cases [of "Suc f" "'' ''" "''abcdefgh''"]
      by (auto simp: keyboard_runs_Suc)
  qed
qed

lemma remove_sequence_limited_runs:
  "frames \<le> n + 2 \<Longrightarrow>
   remove_sequence_limited frames (keyboard_runs (Suc n)) ''abcdefgh'' = Inl RuntimeError"
proof (cases "frames \<le> 1")
  case True
  then show ?thesis by (rule remove_sequence_limited_one)
next
  case False
  assume le: "frames \<le> n + 2"
  from False obtain f where f: "frames = Suc (Suc f)" by (cases frames; cases "frames - 1") auto
  have r: "longest_common_substring_val (keyboard_runs (Suc n)) ''abcdefgh'' = (0, ''abc'')"
    using lcs_runs_head [of "'' '' @ keyboard_runs n"] keyboard_runs_set [of n]
    by (simp add: keyboard_runs_Suc)
  have right: "remove_sequence_limited (Suc f) ('' '' @ keyboard_runs n) ''abcdefgh'' = Inl RuntimeError"
    using le f by (intro remove_sequence_limited_spaced) simp
  show ?thesis
    unfolding f
    using remove_sequence_limited_match [OF r, of f] right
      remove_sequence_limited_cases [of "Suc f" "[]" "''abcdefgh''"]
    by (auto simp: keyboard_runs_Suc)
qed

subsection \<open>The stages under the limit\<close>

lemma strip_keyboard_sequences_loop_limited_cases:
  "strip_keyboard_sequences_loop_limited frames ks t = Inl RuntimeError \<or>
   strip_keyboard_sequences_loop_limited frames ks t =
     Inr (fold (\<lambda>keyboard_seq tmp_pass. remove_sequence_val tmp_pass keyboard_seq) ks t)"
proof (induction ks arbitrary: t)
  case Nil
  show ?case by simp
next
  case (Cons k ks)
  show ?case
    using remove_sequence_limited_cases [of frames t k] Cons.IH [of "remove_sequence_val t k"]
    by auto
qed

lemma strip_keyboard_sequences_limited_cases:
  "strip_keyboard_sequences_limited frames t = Inl RuntimeError \<or>
   strip_keyboard_sequences_limited frames t = Inr (strip_keyboard_sequences_val t)"
  unfolding strip_keyboard_sequences_limited_def strip_keyboard_sequences_val_def
  by (rule strip_keyboard_sequences_loop_limited_cases)

lemma add_shortened_limited_cases:
  "add_shortened_limited frames cur d = Inl RuntimeError \<or>
   add_shortened_limited frames cur d = Inr (add_shortened_val cur d)"
  using strip_keyboard_sequences_limited_cases [of frames "password cur"]
  by (auto simp: add_shortened_limited_def add_shortened_val_def Let_def)

lemma find_keyboard_sequences_loop_limited_cases:
  "find_keyboard_sequences_loop_limited frames vs d = Inl RuntimeError \<or>
   find_keyboard_sequences_loop_limited frames vs d = Inr (fold add_shortened_val vs d)"
proof (induction vs arbitrary: d)
  case Nil
  show ?case by simp
next
  case (Cons v vs)
  show ?case
    using add_shortened_limited_cases [of frames v d] Cons.IH [of "add_shortened_val v d"]
    by auto
qed

lemma find_keyboard_sequences_limited_cases:
  "find_keyboard_sequences_limited frames d = Inl RuntimeError \<or>
   find_keyboard_sequences_limited frames d = find_keyboard_sequences d"
  unfolding find_keyboard_sequences_limited_def find_keyboard_sequences_checked
    find_keyboard_sequences_val_def
  by (rule find_keyboard_sequences_loop_limited_cases)

lemma entropy_of_normalized_limited_cases:
  assumes "p \<noteq> []"
  shows "entropy_of_normalized_limited frames ws p = Inl RuntimeError \<or>
         entropy_of_normalized_limited frames ws p = entropy_of_normalized ws p"
proof -
  obtain m where m: "keyspace_multiplier p = Inr m"
    using keyspace_multiplier_total [OF assms] by blast
  show ?thesis
    using find_keyboard_sequences_limited_cases [of frames "base_variants p"]
    unfolding entropy_of_normalized_limited_def entropy_of_normalized_def m sum.case
    by auto
qed

lemma get_entropy_bits_limited_cases:
  "get_entropy_bits_limited frames ws p = Inl RuntimeError \<or>
   get_entropy_bits_limited frames ws p = get_entropy_bits ws p"
  using entropy_of_normalized_limited_cases [OF handle_license_plates_nonempty, of p frames ws]
  by (auto simp: get_entropy_bits_limited_def get_entropy_bits_def)

subsection \<open>Frames that suffice\<close>

lemma strip_keyboard_sequences_loop_limited_enough:
  "length t + 2 \<le> frames \<Longrightarrow>
   strip_keyboard_sequences_loop_limited frames ks t =
     Inr (fold (\<lambda>keyboard_seq tmp_pass. remove_sequence_val tmp_pass keyboard_seq) ks t)"
proof (induction ks arbitrary: t)
  case Nil
  show ?case by simp
next
  case (Cons k ks)
  have "length (remove_sequence_val t k) + 2 \<le> frames"
    using remove_sequence_length_le [of t k] Cons.prems by simp
  then show ?case
    using Cons.IH [of "remove_sequence_val t k"] remove_sequence_limited_enough [OF Cons.prems]
    by simp
qed

lemma add_shortened_limited_enough:
  "length (password cur) + 2 \<le> frames \<Longrightarrow>
   add_shortened_limited frames cur d = Inr (add_shortened_val cur d)"
  by (simp add: add_shortened_limited_def add_shortened_val_def Let_def
      strip_keyboard_sequences_limited_def strip_keyboard_sequences_val_def
      strip_keyboard_sequences_loop_limited_enough)

lemma find_keyboard_sequences_loop_limited_enough:
  "\<forall>v \<in> set vs. length (password v) + 2 \<le> frames \<Longrightarrow>
   find_keyboard_sequences_loop_limited frames vs d = Inr (fold add_shortened_val vs d)"
  by (induction vs arbitrary: d) (simp_all add: add_shortened_limited_enough)

lemma base_variants_lengths:
  "v \<in> set (dict_values (base_variants p)) \<Longrightarrow> length (password v) = length p"
  using base_variants_values [of p]
  by (auto simp: lower_pass_def rev_pass_def reverse_password_def reverse_string_def
      leetspeak_pass_def leetspeak_pass2_def translate_def py_lower_def)

lemma handle_license_plates_length: "length (handle_license_plates p) \<le> length p"
  by (auto simp: handle_license_plates_def Let_def py_slice_to_def py_slice_from_def
      slice_bound_def split: option.splits prod.splits dest!: licence_plate_search_bounds)

lemma get_entropy_bits_limited_enough:
  assumes "length p + 2 \<le> frames"
  shows "get_entropy_bits_limited frames ws p = get_entropy_bits ws p"
proof -
  let ?q = "handle_license_plates p"
  have "\<forall>v \<in> set (dict_values (base_variants ?q)). length (password v) + 2 \<le> frames"
    using base_variants_lengths [of _ ?q] handle_license_plates_length [of p] assms by auto
  then have h: "find_keyboard_sequences_limited frames (base_variants ?q) =
             find_keyboard_sequences (base_variants ?q)"
    unfolding find_keyboard_sequences_limited_def find_keyboard_sequences_checked
      find_keyboard_sequences_val_def
    by (rule find_keyboard_sequences_loop_limited_enough)
  have "entropy_of_normalized_limited frames ws ?q = entropy_of_normalized ws ?q"
    unfolding entropy_of_normalized_limited_def entropy_of_normalized_def h by (rule refl)
  then show ?thesis by (simp add: get_entropy_bits_limited_def get_entropy_bits_def)
qed

subsection \<open>The password of many runs exhausts the frames\<close>

lemma strip_keyboard_sequences_loop_limited_fails:
  assumes "\<forall>k \<in> set pre. length (snd (longest_common_substring_val t k)) \<le> 2"
    and "remove_sequence_limited frames t k = Inl RuntimeError"
  shows "strip_keyboard_sequences_loop_limited frames (pre @ k # post) t = Inl RuntimeError"
  using assms(1)
proof (induction pre)
  case Nil
  show ?case using assms(2) by simp
next
  case (Cons a pre)
  then have "remove_sequence_val t a = t" by (intro remove_sequence_no_match) simp
  then show ?case
    using remove_sequence_limited_cases [of frames t a] Cons by auto
qed

lemma strip_keyboard_sequences_limited_runs:
  assumes "frames \<le> n + 2"
  shows "strip_keyboard_sequences_limited frames (keyboard_runs (Suc n)) = Inl RuntimeError"
proof -
  have ks: "KEYBOARD_SEQUENCES =
            take 6 KEYBOARD_SEQUENCES @ ''abcdefgh'' # drop 7 KEYBOARD_SEQUENCES"
    by (simp add: KEYBOARD_SEQUENCES_def)
  have pre: "\<forall>k \<in> set (take 6 KEYBOARD_SEQUENCES).
               length (snd (longest_common_substring_val (keyboard_runs (Suc n)) k)) \<le> 2"
    using lcs_runs_first_rows [OF _ keyboard_runs_set] by blast
  show ?thesis
    unfolding strip_keyboard_sequences_limited_def
    by (subst ks)
       (rule strip_keyboard_sequences_loop_limited_fails
          [OF pre remove_sequence_limited_runs [OF assms]])
qed

lemma py_lower_runs: "py_lower (keyboard_runs n) = keyboard_runs n"
  by (induction n) (simp_all add: keyboard_runs_def py_lower_def char_is_upper_def ord_def)

lemma keepmin_setitem_head:
  "\<not> entropy v < entropy old \<Longrightarrow>
   \<exists>rest'. keepmin_setitem ((k, old) # rest) key v = (k, old) # rest'"
  by simp

lemma base_variants_head: "\<exists>rest. base_variants p = (py_lower p, lower_pass p) # rest"
proof -
  let ?l = "lower_pass p"
  have e: "\<not> entropy (rev_pass p) < entropy ?l" "\<not> entropy (leetspeak_pass p) < entropy ?l"
    "\<not> entropy (leetspeak_pass2 p) < entropy ?l"
    by (simp_all add: lower_pass_def rev_pass_def reverse_password_def leetspeak_pass_def
        leetspeak_pass2_def)
  have d0: "keepmin_setitem [] (password ?l) ?l = (py_lower p, ?l) # []"
    by (simp add: lower_pass_def)
  obtain r1 where d1: "keepmin_setitem ((py_lower p, ?l) # []) (password (rev_pass p)) (rev_pass p)
                       = (py_lower p, ?l) # r1"
    using keepmin_setitem_head [OF e(1)] by blast
  obtain r2 where d2: "keepmin_setitem ((py_lower p, ?l) # r1) (password (leetspeak_pass p))
                         (leetspeak_pass p) = (py_lower p, ?l) # r2"
    using keepmin_setitem_head [OF e(2)] by blast
  obtain r3 where d3: "keepmin_setitem ((py_lower p, ?l) # r2) (password (leetspeak_pass2 p))
                         (leetspeak_pass2 p) = (py_lower p, ?l) # r3"
    using keepmin_setitem_head [OF e(3)] by blast
  show ?thesis unfolding base_variants_def Let_def d0 d1 d2 d3 by blast
qed

lemma find_keyboard_sequences_limited_runs:
  assumes "frames \<le> n + 2"
  shows "find_keyboard_sequences_limited frames (base_variants (keyboard_runs (Suc n)))
         = Inl RuntimeError"
proof -
  obtain rest where b: "base_variants (keyboard_runs (Suc n)) =
      (py_lower (keyboard_runs (Suc n)), lower_pass (keyboard_runs (Suc n))) # rest"
    using base_variants_head by blast
  have "add_shortened_limited frames (lower_pass (keyboard_runs (Suc n))) d = Inl RuntimeError" for d
    using strip_keyboard_sequences_limited_runs [OF assms]
    by (simp add: add_shortened_limited_def lower_pass_def py_lower_runs)
  then show ?thesis
    unfolding find_keyboard_sequences_limited_def b by (simp add: dict_values_def)
qed

lemma licence_plate_match_separator:
  "licence_plate_match s = Some g \<Longrightarrow> \<exists>c \<in> set s. plate_separator c"
  by (cases s rule: licence_plate_match.cases) (auto split: if_splits)

lemma licence_plate_search_none:
  "\<forall>c \<in> set s. \<not> plate_separator c \<Longrightarrow> licence_plate_search s pos = None"
proof (induction s arbitrary: pos)
  case Nil
  show ?case by simp
next
  case (Cons c s)
  have "licence_plate_match (c # s) = None"
    using licence_plate_match_separator [of "c # s"] Cons.prems
    by (cases "licence_plate_match (c # s)") blast+
  then show ?case using Cons by simp
qed

lemma handle_license_plates_runs: "handle_license_plates (keyboard_runs n) = keyboard_runs n"
proof -
  have "\<forall>c \<in> set (keyboard_runs n). \<not> plate_separator c"
    using keyboard_runs_set [of n] by (auto simp: plate_separator_def)
  then show ?thesis by (simp add: handle_license_plates_def licence_plate_search_none)
qed

lemma get_entropy_bits_limited_runs:
  assumes "frames \<le> n + 2"
  shows "get_entropy_bits_limited frames ws (keyboard_runs (Suc n)) = Inl RuntimeError"
proof -
  let ?p = "keyboard_runs (Suc n)"
  have ne: "?p \<noteq> []" by (simp add: keyboard_runs_Suc)
  have "CHR ''a'' \<in> set ?p" "CHR ''b'' \<in> set ?p" by (simp_all add: keyboard_runs_Suc)
  then have c: "card (set ?p) \<noteq> 1" by (auto simp: card_1_singleton_iff)
  obtain m where m: "keyspace_multiplier ?p = Inr m"
    using keyspace_multiplier_total [OF ne] by blast
  have "entropy_of_normalized_limited frames ws ?p = Inl RuntimeError"
    unfolding entropy_of_normalized_limited_def m find_keyboard_sequences_limited_runs [OF assms]
    by simp
  then show ?thesis
    using ne c by (simp add: get_entropy_bits_limited_def handle_license_plates_runs)
qed

section \<open>The claims on the aggregate\<close>

text \<open>
  Claim C1. For a password that is not empty and has more than one distinct character,
  \<open>get_entropy_bits\<close> returns the smaller of the least variant entropy and the raw entropy,
  times the key-space multiplier. Here everything is taken of the password after
  licence-plate normalization: the least variant entropy is the minimum over the variants
  of the adjustment (after dictionary detection) plus the closed-form NIST bits of the
  variant's string, the raw entropy is the repetition-aware NIST bits plus 6, and the
  multiplier is \<open>ln keyspaceSize / ln 26\<close> with \<open>keyspaceSize\<close> the sum of 26, 26, 10 and
  32 over the classes lowercase, uppercase, digit and other that occur.
\<close>

theorem get_entropy_bits_formula:
  assumes "orig_pass \<noteq> []" and "1 < card (set orig_pass)"
  shows "get_entropy_bits dict_words orig_pass =
         Inr (min (spec_min_variant_entropy dict_words (handle_license_plates orig_pass))
                  (spec_raw_entropy (handle_license_plates orig_pass))
              * (ln (real (spec_keyspace_size (handle_license_plates orig_pass))) / ln 26))"
proof -
  have "get_entropy_bits dict_words orig_pass =
        entropy_of_normalized dict_words (handle_license_plates orig_pass)"
    using assms by (simp add: get_entropy_bits_def)
  then show ?thesis
    using entropy_of_normalized_spec [OF handle_license_plates_nonempty [OF assms(1)]] by simp
qed

theorem get_entropy_bits_formula_witness:
  "''dragon'' \<noteq> [] \<and> 1 < card (set ''dragon'') \<and>
   min (spec_min_variant_entropy [''dragon''] ''dragon'') (spec_raw_entropy ''dragon'')
     * (ln (real (spec_keyspace_size ''dragon'')) / ln 26) = 14"
proof -
  have h1: "''dragon'' \<noteq> []" by simp
  have h2: "1 < card (set ''dragon'')" by simp
  have "Inr (min (spec_min_variant_entropy [''dragon''] ''dragon'') (spec_raw_entropy ''dragon'')
          * (ln (real (spec_keyspace_size ''dragon'')) / ln 26)) = (Inr 14 :: error + real)"
    using get_entropy_bits_formula [OF h1 h2, of "[''dragon'']"] entropy_dragon
    by (simp only: plate_dragon)
  then show ?thesis using h1 h2 by simp
qed

lemma scan_dict_words_total: "\<exists>found. scan_dict_words clean n S ws = Inr found"
proof (induction ws)
  case Nil
  show ?case by (rule exI [of _ False]) simp
next
  case (Cons w ws)
  show ?case
  proof (cases "w \<in> S \<and> sublist w clean")
    case False
    then show ?thesis using Cons.IH by auto
  next
    case True
    then have sl: "sublist w clean" by simp
    note idx = str_index_first [OF sl]
    have le: "first_occurrence clean w \<le> length clean" by (rule first_occurrence_le [OF sl])
    have get: "py_get clean (int (first_occurrence clean w) - 1) =
               Inr (clean ! (first_occurrence clean w - 1))"
      if "first_occurrence clean w \<noteq> 0"
      using that le py_get_in_range [of "first_occurrence clean w - 1" clean]
      by (simp add: of_nat_diff)
    show ?thesis using True Cons.IH idx get by auto
  qed
qed

text \<open>
  With no bound on the stack, \<open>get_entropy_bits\<close> returns a number for every word list
  and every password: the key space of a non-empty string is positive, so the logarithm
  is defined; \<^verbatim>\<open>index\<close> succeeds whenever the word occurs in the clean string, and the scan
  of the word list, which calls it only under that test, never raises; the
  repetition-aware NIST count never reads outside its 256-entry table; and neither the
  longest-common-substring rows nor the removal of a keyboard sequence are indexed
  out of range.
\<close>

lemma get_entropy_bits_unbounded_stack:
  "(\<exists>r. get_entropy_bits dict_words orig_pass = Inr r) \<and>
   (s \<noteq> [] \<longrightarrow> 0 < keyspace_size s \<and> (\<exists>m. keyspace_multiplier s = Inr m)) \<and>
   (sublist w clean \<longrightarrow> (\<exists>i. str_index clean w = Inr i)) \<and>
   (\<exists>found. scan_dict_words clean n S ws = Inr found) \<and>
   (\<exists>bits. get_NIST_num_bits s True = Inr bits) \<and>
   (\<exists>l. longest_common_substring s1 s2 = Inr l) \<and>
   (\<exists>out. remove_sequence s1 s2 = Inr out) \<and>
   (\<exists>d. find_keyboard_sequences passwords_variants = Inr d)"
proof -
  have a: "\<exists>r. get_entropy_bits dict_words orig_pass = Inr r"
    using get_entropy_bits_nonneg [of dict_words orig_pass] by blast
  have b: "s \<noteq> [] \<longrightarrow> 0 < keyspace_size s \<and> (\<exists>m. keyspace_multiplier s = Inr m)"
    using keyspace_size_pos [of s] keyspace_multiplier_total [of s] by auto
  have c: "sublist w clean \<longrightarrow> (\<exists>i. str_index clean w = Inr i)"
    using str_index_first [of w clean] by blast
  have d: "\<exists>bits. get_NIST_num_bits s True = Inr bits"
    using nist_repeat_bits [of s] by blast
  have e: "\<exists>l. longest_common_substring s1 s2 = Inr l"
    by (simp add: longest_common_substring_checked)
  have f: "\<exists>out. remove_sequence s1 s2 = Inr out"
    by (simp add: remove_sequence_checked)
  have g: "\<exists>d. find_keyboard_sequences passwords_variants = Inr d"
    by (simp add: find_keyboard_sequences_checked)
  show ?thesis using a b c d e f g scan_dict_words_total [of clean n S ws] by blast
qed

lemma keyboard_runs_length: "length (keyboard_runs n) = 4 * n"
  by (induction n) (simp_all add: keyboard_runs_def)

text \<open>
  Claim C9: \<open>get_entropy_bits\<close> is to return a number for every string. The code does not:
  \<^verbatim>\<open>remove_sequence\<close> calls itself once for every keyboard run it removes, each call one
  frame deeper, and the interpreter allows 1000 frames unless told otherwise. On the
  password \<^verbatim>\<open>'abc ' * 1000\<close> (4000 characters), called with 1000 frames left, or with any
  number up to 1001, \<open>get_entropy_bits\<close> raises \<^verbatim>\<open>RuntimeError\<close>, whatever the word list. With
  4002 frames left it returns a number for the same password, and no other exception can
  be raised for any password: \<^verbatim>\<open>RuntimeError\<close> is the only departure from the function on
  an unbounded stack.
\<close>

theorem get_entropy_bits_recursion_limit:
  "get_entropy_bits_limited 1000 dict_words (concat (replicate 1000 ''abc '')) = Inl RuntimeError \<and>
   get_entropy_bits_limited (min frames 1001) dict_words (concat (replicate 1000 ''abc ''))
     = Inl RuntimeError \<and>
   (\<exists>r. get_entropy_bits_limited 4002 dict_words (concat (replicate 1000 ''abc '')) = Inr r) \<and>
   (get_entropy_bits_limited frames dict_words orig_pass = Inl RuntimeError \<or>
    (\<exists>r. get_entropy_bits_limited frames dict_words orig_pass = Inr r))"
proof -
  have a: "get_entropy_bits_limited 1000 dict_words (keyboard_runs (Suc 999)) = Inl RuntimeError"
    by (rule get_entropy_bits_limited_runs) simp
  have a': "get_entropy_bits_limited (min frames 1001) dict_words (keyboard_runs (Suc 999))
            = Inl RuntimeError"
    by (rule get_entropy_bits_limited_runs) simp
  have "length (keyboard_runs (Suc 999)) + 2 \<le> 4002" by (simp add: keyboard_runs_length)
  then have "get_entropy_bits_limited 4002 dict_words (keyboard_runs (Suc 999)) =
             get_entropy_bits dict_words (keyboard_runs (Suc 999))"
    by (rule get_entropy_bits_limited_enough)
  then have b: "\<exists>r. get_entropy_bits_limited 4002 dict_words (keyboard_runs (Suc 999)) = Inr r"
    using get_entropy_bits_nonneg [of dict_words "keyboard_runs (Suc 999)"] by auto
  have c: "get_entropy_bits_limited frames dict_words orig_pass = Inl RuntimeError \<or>
           (\<exists>r. get_entropy_bits_limited frames dict_words orig_pass = Inr r)"
    using get_entropy_bits_limited_cases [of frames dict_words orig_pass]
      get_entropy_bits_nonneg [of dict_words orig_pass] by auto
  have k: "keyboard_runs (Suc 999) = concat (replicate 1000 ''abc '')"
    unfolding keyboard_runs_def by simp
  show ?thesis using a a' b c unfolding k by blast
qed

text \<open>
  Claim C8. The result of \<open>get_entropy_bits\<close> is at least 0, and the entropy of every
  variant is at least 0 in the collection as first built, after keyboard-sequence
  stripping, after dictionary detection and after the NIST bits are added.
\<close>

theorem entropy_nonneg:
  "(\<exists>r. get_entropy_bits dict_words orig_pass = Inr r \<and> 0 \<le> r) \<and>
   (\<forall>v \<in> set (dict_values (base_variants p)). 0 \<le> entropy v) \<and>
   (\<exists>d0. find_keyboard_sequences (base_variants p) = Inr d0 \<and>
         (\<forall>v \<in> set (dict_values d0). 0 \<le> entropy v) \<and>
         (\<exists>d. find_dict_words dict_words d0 = Inr d \<and>
              (\<forall>v \<in> set (dict_values d). 0 \<le> entropy v) \<and>
              (\<exists>d'. for_each_value add_NIST_num_bits d = Inr d' \<and>
                    (\<forall>v \<in> set (dict_values d'). 0 \<le> entropy v))))"
proof -
  let ?bits = "\<lambda>v. v\<lparr>entropy := entropy v + spec_nist_bits (length (password v))\<rparr>"
  define D where "D = find_keyboard_sequences_val (base_variants p)"
  define D1 where "D1 = map (\<lambda>(k, v). (k, spec_detect dict_words v)) D"
  define D2 where "D2 = map (\<lambda>(k, v). (k, ?bits v)) D1"
  have a: "\<exists>r. get_entropy_bits dict_words orig_pass = Inr r \<and> 0 \<le> r"
    by (rule get_entropy_bits_nonneg)
  have b: "\<forall>v \<in> set (dict_values (base_variants p)). 0 \<le> entropy v"
    using base_variants_nonneg by blast
  have c0: "find_keyboard_sequences (base_variants p) = Inr D"
    unfolding D_def by (rule find_keyboard_sequences_checked)
  have c: "\<forall>v \<in> set (dict_values D). 0 \<le> entropy v"
    unfolding D_def using find_keyboard_sequences_nonneg by blast
  have d1: "find_dict_words dict_words D = Inr D1"
    unfolding D1_def by (rule find_dict_words_spec)
  have d2: "\<forall>v \<in> set (dict_values D1). 0 \<le> entropy v"
    unfolding D1_def dict_values_map using c spec_detect_nonneg by auto
  have e1: "for_each_value add_NIST_num_bits D1 = Inr D2"
    unfolding D2_def by (rule for_each_value_total) (rule add_NIST_num_bits_spec)
  have e2: "\<forall>v \<in> set (dict_values D2). 0 \<le> entropy v"
    unfolding D2_def dict_values_map using d2 spec_nist_bits_nonneg
    by (auto intro: add_nonneg_nonneg)
  have "\<exists>d'. for_each_value add_NIST_num_bits D1 = Inr d' \<and>
             (\<forall>v \<in> set (dict_values d'). 0 \<le> entropy v)"
    using e1 e2 by blast
  then have "\<exists>d. find_dict_words dict_words D = Inr d \<and>
          (\<forall>v \<in> set (dict_values d). 0 \<le> entropy v) \<and>
          (\<exists>d'. for_each_value add_NIST_num_bits d = Inr d' \<and>
                (\<forall>v \<in> set (dict_values d'). 0 \<le> entropy v))"
    using d1 d2 by blast
  then show ?thesis using a b c0 c by blast
qed

lemma base_variants_ab:
  "dict_values (base_variants ''ab'') =
   [\<lparr>password = ''ab'', entropy = 0\<rparr>, \<lparr>password = ''ba'', entropy = 1\<rparr>]"
  by (simp add: base_variants_def dict_values_def lower_pass_def rev_pass_def reverse_password_def
      reverse_string_def leetspeak_pass_def leetspeak_pass2_def translate_def leetspeakmap_apply
      leetspeakmap2_apply py_lower_def char_is_upper_def ord_def Let_def)

theorem entropy_nonneg_witness:
  "\<lparr>password = ''ba'', entropy = 1\<rparr> \<in> set (dict_values (base_variants ''ab'')) \<and>
   0 \<le> entropy \<lparr>password = ''ba'', entropy = 1\<rparr> \<and>
   (\<exists>r. get_entropy_bits [] ''ab'' = Inr r \<and> 0 \<le> r)"
proof -
  have h: "\<lparr>password = ''ba'', entropy = 1\<rparr> \<in> set (dict_values (base_variants ''ab''))"
    by (simp add: base_variants_ab)
  have "(\<exists>r. get_entropy_bits [] ''ab'' = Inr r \<and> 0 \<le> r) \<and>
        (\<forall>v \<in> set (dict_values (base_variants ''ab'')). 0 \<le> entropy v)"
    using entropy_nonneg [of "[]" "''ab''" "''ab''"] by (elim conjE) (intro conjI)
  then show ?thesis using h by blast
qed

section \<open>The claims on the stages\<close>

lemmas char_simps = char_is_lower_def char_is_upper_def char_is_digit_def char_is_alpha_def
  plate_group_def plate_separator_def ord_def

text \<open>
  Claim C3, as stated: the adjustment goes up by 6 exactly when no word of the list is
  accepted. It fails for a variant whose clean string is shorter than 3: no word is
  accepted for \<open>ab\<close>, and its adjustment stays 0.
\<close>

theorem find_dict_word_short_counterexample:
  "find_dict_word [''password''] \<lparr>password = ''ab'', entropy = 0\<rparr>
     = Inr \<lparr>password = ''ab'', entropy = 0\<rparr> \<and>
   \<not> word_accepted (clean_password ''ab'') ''password''"
  by (simp add: find_dict_word_def clean_password_def minwordlen_def word_accepted_def
      get_substrings_set_iff sublist_Cons_right)

text \<open>
  Claim C3, amended. For every variant of the collection, dictionary detection adds exactly
  6 to the adjustment if and only if the clean string has at least 3 characters and no word
  of the list is accepted for it; otherwise the adjustment is unchanged.
\<close>

theorem find_dict_words_bonus:
  "find_dict_word dict_words v =
     Inr (if 3 \<le> length (clean_password (password v)) \<and>
             \<not> (\<exists>w \<in> set dict_words. word_accepted (clean_password (password v)) w)
          then v\<lparr>entropy := entropy v + 6\<rparr> else v) \<and>
   find_dict_words dict_words d =
     Inr (map (\<lambda>(k, v). (k, if 3 \<le> length (clean_password (password v)) \<and>
             \<not> (\<exists>w \<in> set dict_words. word_accepted (clean_password (password v)) w)
          then v\<lparr>entropy := entropy v + 6\<rparr> else v)) d)"
  using find_dict_word_spec [of dict_words v] find_dict_words_spec [of dict_words d]
  unfolding spec_detect_def by simp

theorem find_dict_words_bonus_witness:
  "find_dict_word [''dragon''] \<lparr>password = ''xqpjfl'', entropy = 0\<rparr>
     = Inr \<lparr>password = ''xqpjfl'', entropy = 6\<rparr> \<and>
   find_dict_word [''dragon''] \<lparr>password = ''dragon'', entropy = 0\<rparr>
     = Inr \<lparr>password = ''dragon'', entropy = 0\<rparr>"
proof -
  have a: "\<not> word_accepted ''xqpjfl'' ''dragon''"
    by (simp add: word_accepted_def get_substrings_set_iff sublist_Cons_right)
  have b: "word_accepted ''dragon'' ''dragon''"
    by (simp add: word_accepted_def get_substrings_set_iff)
  have c: "clean_password ''xqpjfl'' = ''xqpjfl''" "clean_password ''dragon'' = ''dragon''"
    by (simp_all add: clean_password_def)
  show ?thesis
    using find_dict_words_bonus [of "[''dragon'']" "\<lparr>password = ''xqpjfl'', entropy = 0\<rparr>" "[]"]
      find_dict_words_bonus [of "[''dragon'']" "\<lparr>password = ''dragon'', entropy = 0\<rparr>" "[]"]
      a b c by simp
qed

text \<open>
  Claim C7, as stated: substitution B sends \<open>2\<close> to \<open>s\<close>. It fails: variant B of \<open>a2\<close>
  is \<open>az\<close>.
\<close>

theorem leetspeakmap2_counterexample:
  "py_lower ''a2'' ! 1 = CHR ''2'' \<and> password (leetspeak_pass2 ''a2'') = ''az'' \<and>
   password (leetspeak_pass2 ''a2'') ! 1 \<noteq> CHR ''s''"
  by (simp add: leetspeak_pass2_def lower_pass_def translate_def leetspeakmap2_apply
      leetspeakmap_apply py_lower_def char_is_upper_def ord_def)

text \<open>
  Claim C7, amended. Substitution B is substitution A except that \<open>1\<close> goes to \<open>l\<close>
  instead of \<open>i\<close>; both send \<open>2\<close> to \<open>z\<close>. A sends the characters of
  \<open>@!$1234567890\<close> to \<open>aisizeasgtbgo\<close> and leaves every other character alone. So where
  the lowercased password has \<open>2\<close>, variant B has \<open>z\<close>, and where it has \<open>1\<close>, variant B
  has \<open>l\<close>.
\<close>

theorem leetspeakmap2_table:
  "leetspeakmap2 c = (if c = CHR ''1'' then CHR ''l'' else leetspeakmap c) \<and>
   map leetspeakmap ''@!$1234567890'' = ''aisizeasgtbgo'' \<and>
   map leetspeakmap2 ''@!$1234567890'' = ''aislzeasgtbgo'' \<and>
   (c \<notin> set ''@!$1234567890'' \<longrightarrow> leetspeakmap c = c) \<and>
   (\<forall>i < length orig_pass. py_lower orig_pass ! i = CHR ''2'' \<longrightarrow>
        password (leetspeak_pass2 orig_pass) ! i = CHR ''z'') \<and>
   (\<forall>i < length orig_pass. py_lower orig_pass ! i = CHR ''1'' \<longrightarrow>
        password (leetspeak_pass2 orig_pass) ! i = CHR ''l'')"
proof -
  have len: "length (py_lower orig_pass) = length orig_pass" by (simp add: py_lower_def)
  have nth: "password (leetspeak_pass2 orig_pass) ! i = leetspeakmap2 (py_lower orig_pass ! i)"
    if "i < length orig_pass" for i
    using that len by (simp add: leetspeak_pass2_def lower_pass_def translate_def)
  have a: "map leetspeakmap ''@!$1234567890'' = ''aisizeasgtbgo''"
    by (simp add: leetspeakmap_apply)
  have b: "map leetspeakmap2 ''@!$1234567890'' = ''aislzeasgtbgo''"
    by (simp add: leetspeakmap2_apply leetspeakmap_apply)
  have c: "c \<notin> set ''@!$1234567890'' \<longrightarrow> leetspeakmap c = c"
    by (simp add: leetspeakmap_apply)
  show ?thesis
    using nth a b c by (simp add: leetspeakmap2_apply leetspeakmap_apply)
qed

theorem leetspeakmap2_table_witness:
  "(1::nat) < length ''a2'' \<and> py_lower ''a2'' ! 1 = CHR ''2'' \<and>
   password (leetspeak_pass2 ''a2'') ! 1 = CHR ''z''"
proof -
  have h1: "(1::nat) < length ''a2''" by simp
  have h2: "py_lower ''a2'' ! 1 = CHR ''2''" by (simp add: py_lower_def char_is_upper_def ord_def)
  have "\<forall>i < length ''a2''. py_lower ''a2'' ! i = CHR ''2'' \<longrightarrow>
          password (leetspeak_pass2 ''a2'') ! i = CHR ''z''"
    using leetspeakmap2_table [of c "''a2''"] by (elim conjE)
  then show ?thesis using h1 h2 by blast
qed

lemma licence_plate_match_span:
  "licence_plate_match s = Some (g1, g2, g3) \<Longrightarrow>
   8 \<le> length s \<and> take 8 s = g1 @ [s ! 2] @ g2 @ [s ! 5] @ g3 \<and>
   plate_separator (s ! 2) \<and> plate_separator (s ! 5)"
  by (cases s rule: licence_plate_match.cases) (auto split: if_splits)

lemma licence_plate_search_leftmost:
  "licence_plate_search s pos = Some ((start, end'), groups) \<Longrightarrow>
   pos \<le> start \<and> licence_plate_match (drop (start - pos) s) = Some groups \<and>
   (\<forall>i < start - pos. licence_plate_match (drop i s) = None)"
proof (induction s arbitrary: pos)
  case Nil
  then show ?case by simp
next
  case (Cons c s)
  show ?case
  proof (cases "licence_plate_match (c # s)")
    case (Some g)
    then show ?thesis using Cons.prems by simp
  next
    case None
    then have r: "licence_plate_search s (pos + 1) = Some ((start, end'), groups)"
      using Cons.prems by simp
    note IH = Cons.IH [OF r]
    have d: "drop (start - pos) (c # s) = drop (start - (pos + 1)) s"
      using IH by (simp add: Suc_diff_Suc drop_Cons')
    have "licence_plate_match (drop i (c # s)) = None" if "i < start - pos" for i
    proof (cases i)
      case 0
      then show ?thesis using None by simp
    next
      case (Suc j)
      then have "j < start - (pos + 1)" using that by simp
      then show ?thesis using IH Suc by simp
    qed
    then show ?thesis using IH d by simp
  qed
qed

lemma handle_license_plates_match:
  assumes "licence_plate_search pwd 0 = Some ((start, end'), (g1, g2, g3))"
    and "length (filter char_is_lower (g1 @ g2 @ g3)) = 2"
  shows "handle_license_plates pwd = take start pwd @ g1 @ g2 @ g3 @ drop (start + 8) pwd"
    and "length (handle_license_plates pwd) + 2 = length pwd"
    and "take 8 (drop start pwd) = g1 @ [pwd ! (start + 2)] @ g2 @ [pwd ! (start + 5)] @ g3"
    and "\<forall>i < start. licence_plate_match (drop i pwd) = None"
proof -
  note b = licence_plate_search_bounds [OF assms(1)]
  note l = licence_plate_search_leftmost [OF assms(1)]
  show h: "handle_license_plates pwd = take start pwd @ g1 @ g2 @ g3 @ drop (start + 8) pwd"
    using assms b
    by (simp add: handle_license_plates_def py_slice_to_def py_slice_from_def slice_bound_def
        nat_add_distrib)
  have le: "start + 8 \<le> length pwd" and lg: "length g1 = 2" "length g2 = 2" "length g3 = 2"
    using b by simp_all
  have "length (take start pwd) = start" "length (drop (start + 8) pwd) = length pwd - (start + 8)"
    using le by simp_all
  then show "length (handle_license_plates pwd) + 2 = length pwd"
    unfolding h length_append using le lg by linarith
  have m: "licence_plate_match (drop start pwd) = Some (g1, g2, g3)" using l by simp
  show "take 8 (drop start pwd) = g1 @ [pwd ! (start + 2)] @ g2 @ [pwd ! (start + 5)] @ g3"
    using licence_plate_match_span [OF m] b by simp
  show "\<forall>i < start. licence_plate_match (drop i pwd) = None" using l by simp
qed

lemma handle_license_plates_12ab34:
  "handle_license_plates ''12-ab-34'' = ''12ab34''" "handle_license_plates ''12ab34'' = ''12ab34''"
  by (simp_all add: handle_license_plates_def char_simps py_slice_to_def py_slice_from_def
      slice_bound_def)

text \<open>
  What the code does for a match whose groups hold exactly two lowercase letters: the
  matched span (the three groups and the two separators between them) is replaced by the
  three groups, so the password gets 2 shorter; a password with no match is returned as
  it is; and a password that is not empty and has more than one distinct character is
  scored from the password so normalized.
\<close>

lemma handle_license_plates_lower_case:
  "(licence_plate_search pwd 0 = Some ((start, end'), (g1, g2, g3)) \<and>
    length (filter char_is_lower (g1 @ g2 @ g3)) = 2 \<longrightarrow>
      take 8 (drop start pwd) = g1 @ [pwd ! (start + 2)] @ g2 @ [pwd ! (start + 5)] @ g3 \<and>
      (\<forall>i < start. licence_plate_match (drop i pwd) = None) \<and>
      handle_license_plates pwd = take start pwd @ g1 @ g2 @ g3 @ drop (start + 8) pwd \<and>
      length (handle_license_plates pwd) + 2 = length pwd) \<and>
   (licence_plate_search pwd 0 = None \<longrightarrow> handle_license_plates pwd = pwd) \<and>
   (pwd \<noteq> [] \<and> card (set pwd) \<noteq> 1 \<longrightarrow>
      get_entropy_bits dict_words pwd =
        entropy_of_normalized dict_words (handle_license_plates pwd)) \<and>
   get_entropy_bits dict_words ''12-ab-34'' = get_entropy_bits dict_words ''12ab34''"
proof -
  have a: "licence_plate_search pwd 0 = Some ((start, end'), (g1, g2, g3)) \<and>
    length (filter char_is_lower (g1 @ g2 @ g3)) = 2 \<longrightarrow>
      take 8 (drop start pwd) = g1 @ [pwd ! (start + 2)] @ g2 @ [pwd ! (start + 5)] @ g3 \<and>
      (\<forall>i < start. licence_plate_match (drop i pwd) = None) \<and>
      handle_license_plates pwd = take start pwd @ g1 @ g2 @ g3 @ drop (start + 8) pwd \<and>
      length (handle_license_plates pwd) + 2 = length pwd"
    using handle_license_plates_match [of pwd start end' g1 g2 g3] by blast
  have b: "licence_plate_search pwd 0 = None \<longrightarrow> handle_license_plates pwd = pwd"
    by (simp add: handle_license_plates_def)
  have c: "pwd \<noteq> [] \<and> card (set pwd) \<noteq> 1 \<longrightarrow>
      get_entropy_bits dict_words pwd =
        entropy_of_normalized dict_words (handle_license_plates pwd)"
    by (simp add: get_entropy_bits_def)
  have d: "get_entropy_bits dict_words ''12-ab-34'' = get_entropy_bits dict_words ''12ab34''"
    by (simp add: get_entropy_bits_def handle_license_plates_12ab34)
  show ?thesis using a b c d by blast
qed

text \<open>
  Claim C5: a password containing the span \<open>12-AB-34\<close> is to be scored as \<open>12AB34\<close>. The
  code does not do so. The pattern matches the span, with the groups \<open>12\<close>, \<open>AB\<close> and \<open>34\<close>,
  but \<^verbatim>\<open>count_letters\<close> counts the characters for which \<^verbatim>\<open>islower\<close> holds: that is 0 for
  the two upper-case letters, the test \<^verbatim>\<open>count_letters == 2\<close> fails, and the password is
  returned with its separators and scored with its 8 characters: with the empty word list,
  23.5 bits times \<open>ln 68 / ln 26\<close> where \<open>12AB34\<close> scores 20 bits times \<open>ln 36 / ln 26\<close>. The
  same span in lower case is normalized, and so is a match with four letters of which two
  are lower-case.
\<close>

theorem handle_license_plates_upper_case:
  "licence_plate_search ''12-AB-34'' 0 = Some ((0, 8), (''12'', ''AB'', ''34'')) \<and>
   length (filter char_is_lower (''12'' @ ''AB'' @ ''34'')) = 0 \<and>
   handle_license_plates ''12-AB-34'' = ''12-AB-34'' \<and>
   get_entropy_bits dict_words ''12-AB-34'' = entropy_of_normalized dict_words ''12-AB-34'' \<and>
   get_entropy_bits [] ''12-AB-34'' = Inr (47 / 2 * (ln 68 / ln 26)) \<and>
   get_entropy_bits [] ''12AB34'' = Inr (20 * (ln 36 / ln 26)) \<and>
   get_entropy_bits [] ''12-AB-34'' \<noteq> get_entropy_bits [] ''12AB34'' \<and>
   handle_license_plates ''12-ab-34'' = ''12ab34'' \<and>
   handle_license_plates ''ab-CD-12'' = ''abCD12''"
proof -
  have a: "licence_plate_search ''12-AB-34'' 0 = Some ((0, 8), (''12'', ''AB'', ''34''))"
    by (simp add: char_simps)
  have b: "length (filter char_is_lower (''12'' @ ''AB'' @ ''34'')) = 0"
    by (simp add: char_simps)
  have c: "handle_license_plates ''12-AB-34'' = ''12-AB-34''"
    by (simp add: handle_license_plates_def char_simps py_slice_to_def py_slice_from_def
        slice_bound_def)
  have d: "get_entropy_bits dict_words ''12-AB-34'' = entropy_of_normalized dict_words ''12-AB-34''"
    by (simp add: get_entropy_bits_def c)
  have e: "handle_license_plates ''ab-CD-12'' = ''abCD12''"
    by (simp add: handle_license_plates_def char_simps py_slice_to_def py_slice_from_def
        slice_bound_def)
  have f: "get_entropy_bits [] ''12-AB-34'' \<noteq> get_entropy_bits [] ''12AB34''"
    unfolding entropy_plate_upper entropy_plate_bare using entropy_plate_differ by simp
  show ?thesis
    using a b c d e f entropy_plate_upper entropy_plate_bare handle_license_plates_12ab34(1)
    by (intro conjI)
qed

end
